theory Spec2Isabelle
  imports Main "HOL-Library.Word"
begin

unbundle bit_operations_syntax

section \<open>Common conventions\<close>

text \<open>
  The development embeds three parts of the library: the comparison operators of
  \<open>DS_String\<close>, the open-addressing tables \<open>DS_Set\<close> and \<open>DS_Map\<close>, and the
  block-chained stack allocator \<open>DS_StackAllocator\<close>.

  A call of the source either returns, stops in \<open>DS_ASSERT\<close>, runs into undefined
  behaviour (signed \<open>int32_t\<close> overflow, an array access out of range), or loops forever.
  The first three are values of a sum type; not returning is \<open>None\<close>. Every loop that
  the source writes as \<open>for (;;)\<close> takes a fuel argument that is decreased at every
  iteration and at every nested call, and running out of fuel is \<open>None\<close>.
\<close>

datatype error = AssertFailed | SignedOverflow | OutOfBounds | OutOfMemory

type_synonym 'a result = "(error + 'a) option"

type_synonym byte = "8 word"
type_synonym u32 = "32 word"

definition int32_ok :: "int \<Rightarrow> bool" where
  "int32_ok x \<longleftrightarrow> - 2147483648 \<le> x \<and> x \<le> 2147483647"

section \<open>DS\_String: comparison operators\<close>

text \<open>
  A \<open>DS_String\<close> is a view \<open>{Data, Size}\<close>; the model is the list of the \<open>Size\<close> bytes
  that \<open>Data\<close> points to. \<open>memcmp\<close> compares the first \<open>n\<close> bytes of two buffers and
  returns 0 exactly when they agree. Both operators call it only behind the size test
  (\<open>&&\<close> and \<open>||\<close> short-circuit), hence only on two buffers of \<open>n\<close> bytes.
\<close>

fun memcmp :: "byte list \<Rightarrow> byte list \<Rightarrow> nat \<Rightarrow> int" where
  "memcmp a b 0 = 0"
| "memcmp (x # a) (y # b) (Suc n) =
     (if x = y then memcmp a b n else if x < y then - 1 else 1)"
| "memcmp [] b (Suc n) = 0"
| "memcmp (x # a) [] (Suc n) = 0"

text \<open>\<open>bool operator==(DS_String other) { return Size == other.Size && memcmp(Data, other.Data, Size) == 0; }\<close>\<close>

definition DS_String_eq :: "byte list \<Rightarrow> byte list \<Rightarrow> bool" where
  "DS_String_eq this other \<longleftrightarrow>
     int (length this) = int (length other) \<and> memcmp this other (length this) = 0"

text \<open>\<open>bool operator!=(DS_String other) { return Size != other.Size || memcmp(Data, other.Data, Size) == 0; }\<close>\<close>

definition DS_String_ne :: "byte list \<Rightarrow> byte list \<Rightarrow> bool" where
  "DS_String_ne this other \<longleftrightarrow>
     int (length this) \<noteq> int (length other) \<or> memcmp this other (length this) = 0"

text \<open>
  The \<open>const char*\<close> overloads: \<open>None\<close> is the null pointer, \<open>Some cs\<close> a C string whose
  bytes before the terminating NUL are \<open>cs\<close>; \<open>other_len\<close> is \<open>strlen(other)\<close>, or
  \<open>INTPTR_MIN\<close> for the null pointer.
\<close>

definition INTPTR_MIN :: int where
  "INTPTR_MIN = - 9223372036854775808"

definition other_len :: "byte list option \<Rightarrow> int" where
  "other_len other = (case other of None \<Rightarrow> INTPTR_MIN | Some cs \<Rightarrow> int (length cs))"

definition cstr_bytes :: "byte list option \<Rightarrow> byte list" where
  "cstr_bytes other = (case other of None \<Rightarrow> [] | Some cs \<Rightarrow> cs)"

definition DS_String_eq_cstr :: "byte list \<Rightarrow> byte list option \<Rightarrow> bool" where
  "DS_String_eq_cstr this other \<longleftrightarrow>
     int (length this) = other_len other \<and> memcmp this (cstr_bytes other) (length this) = 0"

definition DS_String_ne_cstr :: "byte list \<Rightarrow> byte list option \<Rightarrow> bool" where
  "DS_String_ne_cstr this other \<longleftrightarrow>
     int (length this) \<noteq> other_len other \<or> memcmp this (cstr_bytes other) (length this) = 0"

section \<open>DS\_Set and DS\_Map: the tables\<close>

text \<open>
  \<open>DS_Set<KEY>\<close> and \<open>DS_Map<KEY, VALUE>\<close> have the same four fields. \<open>Data\<close> is the
  slot array, modelled by the list of its \<open>NumSlots\<close> slots; \<open>Allocator\<close> records whether
  the allocator pointer is non-null (\<open>Init\<close> has been called). \<open>NumElems\<close> and
  \<open>NumSlots\<close> are \<open>int32_t\<close>: they are integers here and every arithmetic operation on
  them that would leave the 32-bit range is the error \<open>SignedOverflow\<close>.

  A key type comes with its default value \<open>KEY{}\<close>, which is \<open>0\<close>, and its conversion
  \<open>(uint32_t)key\<close>, which is the parameter \<open>h\<close> of every operation.
\<close>

record 'e DS_Table =
  Data :: "'e list"
  NumElems :: int
  NumSlots :: int
  Allocator :: bool

type_synonym 'k DS_Set = "'k DS_Table"

text \<open>The probe loop of \<open>DS_Set::Has\<close>.\<close>

fun Set_Has_loop :: "nat \<Rightarrow> 'k::zero DS_Set \<Rightarrow> u32 \<Rightarrow> u32 \<Rightarrow> 'k \<Rightarrow> bool result" where
  "Set_Has_loop 0 s msk index key = None"
| "Set_Has_loop (Suc fuel) s msk index key =
     (if length (Data s) \<le> unat index then Some (Inl OutOfBounds)
      else if Data s ! unat index = 0 then Some (Inr False)
      else if key = Data s ! unat index then Some (Inr True)
      else Set_Has_loop fuel s msk ((index + 1) AND msk) key)"

definition Set_Has :: "nat \<Rightarrow> ('k::zero \<Rightarrow> u32) \<Rightarrow> 'k DS_Set \<Rightarrow> 'k \<Rightarrow> bool result" where
  "Set_Has fuel h s key =
     (if NumSlots s = 0 then Some (Inr False)
      else let msk = (word_of_int (NumSlots s) :: u32) - 1;
               index = h key AND msk
           in Set_Has_loop fuel s msk index key)"

text \<open>The probe loop of \<open>DS_Set::Add\<close>, after the growth check.\<close>

fun Set_Add_loop :: "nat \<Rightarrow> 'k::zero DS_Set \<Rightarrow> u32 \<Rightarrow> u32 \<Rightarrow> 'k \<Rightarrow> (bool \<times> 'k DS_Set) result" where
  "Set_Add_loop 0 s msk index key = None"
| "Set_Add_loop (Suc fuel) s msk index key =
     (if length (Data s) \<le> unat index then Some (Inl OutOfBounds)
      else if Data s ! unat index = 0 then
        (if \<not> int32_ok (NumElems s + 1) then Some (Inl SignedOverflow)
         else Some (Inr (True, s\<lparr>Data := (Data s)[unat index := key],
                                  NumElems := NumElems s + 1\<rparr>)))
      else if key = Data s ! unat index then Some (Inr (False, s))
      else Set_Add_loop fuel s msk ((index + 1) AND msk) key)"

text \<open>
  \<open>DS_Set::Add\<close> and \<open>DS_Set::Resize\<close> call each other: \<open>Add\<close> grows the table through
  \<open>Resize\<close>, and \<open>Resize\<close> puts every key of the old array back through \<open>Add\<close>.
  \<open>Set_Resize_loop\<close> is the \<open>for\<close> loop of \<open>Resize\<close> over the old array.
\<close>

fun Set_Add :: "nat \<Rightarrow> ('k::zero \<Rightarrow> u32) \<Rightarrow> 'k DS_Set \<Rightarrow> 'k \<Rightarrow> (bool \<times> 'k DS_Set) result"
  and Set_Resize :: "nat \<Rightarrow> ('k \<Rightarrow> u32) \<Rightarrow> 'k DS_Set \<Rightarrow> int \<Rightarrow> 'k DS_Set result"
  and Set_Resize_loop :: "nat \<Rightarrow> ('k \<Rightarrow> u32) \<Rightarrow> 'k DS_Set \<Rightarrow> 'k list \<Rightarrow> 'k DS_Set result"
where
  "Set_Add 0 h s key = None"
| "Set_Add (Suc fuel) h s key =
     (if \<not> Allocator s then Some (Inl AssertFailed)
      else if key = 0 then Some (Inl AssertFailed)
      else if \<not> int32_ok (100 * (NumElems s + 1)) \<or> \<not> int32_ok (70 * NumSlots s)
        then Some (Inl SignedOverflow)
      else
        (case (if 100 * (NumElems s + 1) > 70 * NumSlots s
               then (if NumSlots s = 0 then Set_Resize fuel h s 8
                     else if \<not> int32_ok (NumSlots s * 2) then Some (Inl SignedOverflow)
                     else Set_Resize fuel h s (NumSlots s * 2))
               else Some (Inr s)) of
           None \<Rightarrow> None
         | Some (Inl e) \<Rightarrow> Some (Inl e)
         | Some (Inr s1) \<Rightarrow>
             (let msk = (word_of_int (NumSlots s1) :: u32) - 1;
                  index = h key AND msk
              in Set_Add_loop fuel s1 msk index key)))"
| "Set_Resize fuel h s num_slots =
     (if \<not> int32_ok (num_slots - 1) then Some (Inl SignedOverflow)
      else if num_slots AND (num_slots - 1) \<noteq> 0 then Some (Inl AssertFailed)
      else if \<not> num_slots \<ge> NumElems s then Some (Inl AssertFailed)
      else
        (let old_data = Data s;
             old_capacity = NumSlots s;
             s1 = s\<lparr>NumSlots := num_slots, NumElems := 0,
                    Data := replicate (nat num_slots) 0\<rparr>
         in if num_slots > 0 then
              (if int (length old_data) < old_capacity then Some (Inl OutOfBounds)
               else Set_Resize_loop fuel h s1 (take (nat old_capacity) old_data))
            else Some (Inr s1)))"
| "Set_Resize_loop fuel h s [] = Some (Inr s)"
| "Set_Resize_loop fuel h s (elem # rest) =
     (if elem \<noteq> 0 then
        (case Set_Add fuel h s elem of
           None \<Rightarrow> None
         | Some (Inl e) \<Rightarrow> Some (Inl e)
         | Some (Inr (added_new, s1)) \<Rightarrow> Set_Resize_loop fuel h s1 rest)
      else Set_Resize_loop fuel h s rest)"

text \<open>\<open>DS_Set::Init\<close>.\<close>

definition Set_Init :: "nat \<Rightarrow> ('k::zero \<Rightarrow> u32) \<Rightarrow> int \<Rightarrow> 'k DS_Set result" where
  "Set_Init fuel h initial_num_slots =
     (let s = \<lparr>Data = [], NumElems = 0, NumSlots = 0, Allocator = True\<rparr>
      in if initial_num_slots > 0 then Set_Resize fuel h s initial_num_slots
         else Some (Inr s))"

text \<open>
  \<open>DS_Set::Remove\<close>: \<open>Set_Remove_loop\<close> is the outer loop that looks for the key,
  \<open>Set_Remove_shift\<close> the inner loop, the backward-shift deletion, which takes every key
  of the run of occupied slots behind the freed slot out of the table and puts it back
  through \<open>Add\<close>. The mask \<open>msk\<close> is computed once, before the outer loop.
\<close>

fun Set_Remove_shift :: "nat \<Rightarrow> ('k::zero \<Rightarrow> u32) \<Rightarrow> 'k DS_Set \<Rightarrow> u32 \<Rightarrow> u32 \<Rightarrow> 'k DS_Set result" where
  "Set_Remove_shift 0 h s msk index = None"
| "Set_Remove_shift (Suc fuel) h s msk index =
     (let index1 = (index + 1) AND msk
      in if length (Data s) \<le> unat index1 then Some (Inl OutOfBounds)
         else if Data s ! unat index1 = 0 then Some (Inr s)
         else if \<not> int32_ok (NumElems s - 1) then Some (Inl SignedOverflow)
         else
           (let temp = Data s ! unat index1;
                s1 = s\<lparr>Data := (Data s)[unat index1 := 0], NumElems := NumElems s - 1\<rparr>
            in case Set_Add fuel h s1 temp of
                 None \<Rightarrow> None
               | Some (Inl e) \<Rightarrow> Some (Inl e)
               | Some (Inr (added_new, s2)) \<Rightarrow> Set_Remove_shift fuel h s2 msk index1))"

fun Set_Remove_loop :: "nat \<Rightarrow> ('k::zero \<Rightarrow> u32) \<Rightarrow> 'k DS_Set \<Rightarrow> u32 \<Rightarrow> u32 \<Rightarrow> 'k \<Rightarrow> (bool \<times> 'k DS_Set) result" where
  "Set_Remove_loop 0 h s msk index key = None"
| "Set_Remove_loop (Suc fuel) h s msk index key =
     (if length (Data s) \<le> unat index then Some (Inl OutOfBounds)
      else if Data s ! unat index = 0 then Some (Inr (False, s))
      else if key = Data s ! unat index then
        (if \<not> int32_ok (NumElems s - 1) then Some (Inl SignedOverflow)
         else
           (let s1 = s\<lparr>Data := (Data s)[unat index := 0], NumElems := NumElems s - 1\<rparr>
            in case Set_Remove_shift fuel h s1 msk index of
                 None \<Rightarrow> None
               | Some (Inl e) \<Rightarrow> Some (Inl e)
               | Some (Inr s2) \<Rightarrow> Some (Inr (True, s2))))
      else Set_Remove_loop fuel h s msk ((index + 1) AND msk) key)"

definition Set_Remove :: "nat \<Rightarrow> ('k::zero \<Rightarrow> u32) \<Rightarrow> 'k DS_Set \<Rightarrow> 'k \<Rightarrow> (bool \<times> 'k DS_Set) result" where
  "Set_Remove fuel h s key =
     (if NumSlots s = 0 then Some (Inr (False, s))
      else let msk = (word_of_int (NumSlots s) :: u32) - 1;
               index = h key AND msk
           in Set_Remove_loop fuel h s msk index key)"

subsection \<open>DS\_Map\<close>

text \<open>
  A slot of \<open>DS_Map\<close> is a \<open>DS_MapSlot\<close>; \<open>{}\<close> is the slot with the default key and the
  default value. A pointer to the value of a slot (the result of \<open>FindPtr\<close>, the \<open>value\<close>
  out-parameter of \<open>Add\<close>) is the index of the slot; the null pointer is \<open>None\<close>.
\<close>

record ('k, 'v) DS_MapSlot =
  Key :: 'k
  Value :: 'v

type_synonym ('k, 'v) DS_Map = "('k, 'v) DS_MapSlot DS_Table"

text \<open>Writing through a pointer to the value of a slot: \<open>*slot_value = value\<close>.\<close>

definition store_Value :: "('k, 'v) DS_Map \<Rightarrow> nat \<Rightarrow> 'v \<Rightarrow> ('k, 'v) DS_Map" where
  "store_Value m slot_value v =
     m\<lparr>Data := (Data m)[slot_value := (Data m ! slot_value)\<lparr>Value := v\<rparr>]\<rparr>"

fun Map_FindPtr_loop :: "nat \<Rightarrow> ('k::zero, 'v) DS_Map \<Rightarrow> u32 \<Rightarrow> u32 \<Rightarrow> 'k \<Rightarrow> nat option result" where
  "Map_FindPtr_loop 0 m msk index key = None"
| "Map_FindPtr_loop (Suc fuel) m msk index key =
     (if length (Data m) \<le> unat index then Some (Inl OutOfBounds)
      else if Key (Data m ! unat index) = 0 then Some (Inr None)
      else if key = Key (Data m ! unat index) then Some (Inr (Some (unat index)))
      else Map_FindPtr_loop fuel m msk ((index + 1) AND msk) key)"

definition Map_FindPtr :: "nat \<Rightarrow> ('k::zero \<Rightarrow> u32) \<Rightarrow> ('k, 'v) DS_Map \<Rightarrow> 'k \<Rightarrow> nat option result" where
  "Map_FindPtr fuel h m key =
     (if NumSlots m = 0 then Some (Inr None)
      else let msk = (word_of_int (NumSlots m) :: u32) - 1;
               index = h key AND msk
           in Map_FindPtr_loop fuel m msk index key)"

text \<open>
  \<open>DS_Map::Find\<close> returns whether the key is there and, when it is, copies the value to
  \<open>*value\<close>: the model returns \<open>Some\<close> of the value copied, and \<open>None\<close> for \<open>false\<close>.
\<close>

definition Map_Find :: "nat \<Rightarrow> ('k::zero \<Rightarrow> u32) \<Rightarrow> ('k, 'v) DS_Map \<Rightarrow> 'k \<Rightarrow> 'v option result" where
  "Map_Find fuel h m key =
     (case Map_FindPtr fuel h m key of
        None \<Rightarrow> None
      | Some (Inl e) \<Rightarrow> Some (Inl e)
      | Some (Inr None) \<Rightarrow> Some (Inr None)
      | Some (Inr (Some ptr)) \<Rightarrow> Some (Inr (Some (Value (Data m ! ptr)))))"

definition Map_Has :: "nat \<Rightarrow> ('k::zero \<Rightarrow> u32) \<Rightarrow> ('k, 'v) DS_Map \<Rightarrow> 'k \<Rightarrow> bool result" where
  "Map_Has fuel h m key =
     (case Map_FindPtr fuel h m key of
        None \<Rightarrow> None
      | Some (Inl e) \<Rightarrow> Some (Inl e)
      | Some (Inr ptr) \<Rightarrow> Some (Inr (ptr \<noteq> None)))"

fun Map_Add_loop :: "nat \<Rightarrow> ('k::zero, 'v) DS_Map \<Rightarrow> u32 \<Rightarrow> u32 \<Rightarrow> 'k
    \<Rightarrow> (bool \<times> nat \<times> ('k, 'v) DS_Map) result" where
  "Map_Add_loop 0 m msk index key = None"
| "Map_Add_loop (Suc fuel) m msk index key =
     (if length (Data m) \<le> unat index then Some (Inl OutOfBounds)
      else if Key (Data m ! unat index) = 0 then
        (if \<not> int32_ok (NumElems m + 1) then Some (Inl SignedOverflow)
         else Some (Inr (True, unat index,
                m\<lparr>Data := (Data m)[unat index := (Data m ! unat index)\<lparr>Key := key\<rparr>],
                  NumElems := NumElems m + 1\<rparr>)))
      else if key = Key (Data m ! unat index) then Some (Inr (False, unat index, m))
      else Map_Add_loop fuel m msk ((index + 1) AND msk) key)"

fun Map_Add :: "nat \<Rightarrow> ('k::zero \<Rightarrow> u32) \<Rightarrow> ('k, 'v::zero) DS_Map \<Rightarrow> 'k
      \<Rightarrow> (bool \<times> nat \<times> ('k, 'v) DS_Map) result"
  and Map_Resize :: "nat \<Rightarrow> ('k \<Rightarrow> u32) \<Rightarrow> ('k, 'v) DS_Map \<Rightarrow> int \<Rightarrow> ('k, 'v) DS_Map result"
  and Map_Resize_loop :: "nat \<Rightarrow> ('k \<Rightarrow> u32) \<Rightarrow> ('k, 'v) DS_Map \<Rightarrow> ('k, 'v) DS_MapSlot list
      \<Rightarrow> ('k, 'v) DS_Map result"
where
  "Map_Add 0 h m key = None"
| "Map_Add (Suc fuel) h m key =
     (if \<not> Allocator m then Some (Inl AssertFailed)
      else if key = 0 then Some (Inl AssertFailed)
      else if \<not> int32_ok (100 * (NumElems m + 1)) \<or> \<not> int32_ok (70 * NumSlots m)
        then Some (Inl SignedOverflow)
      else
        (case (if 100 * (NumElems m + 1) > 70 * NumSlots m
               then (if NumSlots m = 0 then Map_Resize fuel h m 8
                     else if \<not> int32_ok (NumSlots m * 2) then Some (Inl SignedOverflow)
                     else Map_Resize fuel h m (NumSlots m * 2))
               else Some (Inr m)) of
           None \<Rightarrow> None
         | Some (Inl e) \<Rightarrow> Some (Inl e)
         | Some (Inr m1) \<Rightarrow>
             (let msk = (word_of_int (NumSlots m1) :: u32) - 1;
                  index = h key AND msk
              in Map_Add_loop fuel m1 msk index key)))"
| "Map_Resize fuel h m num_slots =
     (if \<not> int32_ok (num_slots - 1) then Some (Inl SignedOverflow)
      else if num_slots AND (num_slots - 1) \<noteq> 0 then Some (Inl AssertFailed)
      else if \<not> num_slots \<ge> NumElems m then Some (Inl AssertFailed)
      else
        (let old_data = Data m;
             old_capacity = NumSlots m;
             m1 = m\<lparr>NumSlots := num_slots, NumElems := 0,
                    Data := replicate (nat num_slots) \<lparr>Key = 0, Value = 0\<rparr>\<rparr>
         in if old_capacity > 0 then
              (if int (length old_data) < old_capacity then Some (Inl OutOfBounds)
               else Map_Resize_loop fuel h m1 (take (nat old_capacity) old_data))
            else Some (Inr m1)))"
| "Map_Resize_loop fuel h m [] = Some (Inr m)"
| "Map_Resize_loop fuel h m (elem # rest) =
     (if Key elem \<noteq> 0 then
        (case Map_Add fuel h m (Key elem) of
           None \<Rightarrow> None
         | Some (Inl e) \<Rightarrow> Some (Inl e)
         | Some (Inr (added_new, new_value, m1)) \<Rightarrow>
             Map_Resize_loop fuel h (store_Value m1 new_value (Value elem)) rest)
      else Map_Resize_loop fuel h m rest)"

definition Map_Init :: "nat \<Rightarrow> ('k::zero \<Rightarrow> u32) \<Rightarrow> int \<Rightarrow> ('k, 'v::zero) DS_Map result" where
  "Map_Init fuel h initial_num_slots =
     (let m = \<lparr>Data = [], NumElems = 0, NumSlots = 0, Allocator = True\<rparr>
      in if initial_num_slots > 0 then Map_Resize fuel h m initial_num_slots
         else Some (Inr m))"

definition Map_Set :: "nat \<Rightarrow> ('k::zero \<Rightarrow> u32) \<Rightarrow> ('k, 'v::zero) DS_Map \<Rightarrow> 'k \<Rightarrow> 'v
    \<Rightarrow> ('k, 'v) DS_Map result" where
  "Map_Set fuel h m key v =
     (case Map_Add fuel h m key of
        None \<Rightarrow> None
      | Some (Inl e) \<Rightarrow> Some (Inl e)
      | Some (Inr (added_new, slot_value, m1)) \<Rightarrow> Some (Inr (store_Value m1 slot_value v)))"

text \<open>
  \<open>DS_Map::Remove\<close> is not part of the model. The test that ends its backward-shift
  loop reads \<open>moving->KEY == KEY{}\<close>, where \<open>KEY\<close> is the template parameter: a
  \<open>DS_MapSlot\<close> has the members \<open>Key\<close> and \<open>Value\<close> and no member \<open>KEY\<close>, so the function
  is ill-formed wherever it is instantiated, and there is no behaviour of it to embed.
  \<open>DS_Set::Remove\<close>, above, is the same algorithm on a table of keys.
\<close>

section \<open>DS\_StackAllocator: the arena\<close>

text \<open>
  Addresses and sizes are integers; the null pointer is \<open>0\<close>. The target is a 64-bit
  one, where \<open>sizeof(DS_StackBlockHeader)\<close> is 16. A size is a \<open>size_t\<close>, an integer
  from 0 to \<open>2 ^ 64 - 1\<close>. \<open>PushUninitialized\<close> reads its size as an \<open>intptr_t\<close> where it
  compares it and where it computes the size of a new block: that cast is \<open>to_intptr\<close>.
  The narrowing cast \<open>(uint32_t)new_block_size\<close> is \<open>mod 2 ^ 32\<close>. The casts between
  pointers and integers do not change a value and are not written, and the addition of a
  size to a pointer is the addition of integers.

  The memory that the arena reads and writes is part of the state: \<open>Headers\<close> gives the
  block header stored at an address, \<open>Bytes\<close> the byte stored at an address.

  The backing allocator is outside the arena. \<open>Backing\<close> records what crosses the
  interface: \<open>Fresh\<close> lists the addresses that the coming calls of \<open>MemAlloc\<close> return,
  \<open>Allocs\<close> the calls of \<open>MemAlloc\<close> made so far (address returned, sz, alignment)
  and \<open>Frees\<close> the pointers given to \<open>MemFree\<close> so far. An allocator with nothing
  left, or one that returns the null pointer, is the error \<open>OutOfMemory\<close>.
\<close>

record DS_StackBlockHeader =
  SizeIncludingHeader :: int
  AllocatedFromBackingAllocator :: bool
  Next :: int

record DS_StackMark =
  Block :: int
  Ptr :: int

record Backing =
  Fresh :: "int list"
  Allocs :: "(int \<times> int \<times> int) list"
  Frees :: "int list"

record DS_StackAllocator =
  BackingAllocator :: Backing
  FirstBlock :: int
  Mark :: DS_StackMark
  BlockSize :: int
  BlockAlignment :: int
  Headers :: "int \<Rightarrow> DS_StackBlockHeader"
  Bytes :: "int \<Rightarrow> byte"

definition sizeof_DS_StackBlockHeader :: int where
  "sizeof_DS_StackBlockHeader = 16"

text \<open>\<open>#define DS_AlignUpPow2(x, p) (((x) + (p) - 1) & ~((p) - 1))\<close>\<close>

definition DS_AlignUpPow2 :: "int \<Rightarrow> int \<Rightarrow> int" where
  "DS_AlignUpPow2 x p = (x + p - 1) AND NOT (p - 1)"

text \<open>
  \<open>(intptr_t)x\<close> for a \<open>size_t\<close>, or for the sum of an \<open>intptr_t\<close> and a \<open>size_t\<close>, which
  is computed in \<open>size_t\<close>: the low 64 bits of \<open>x\<close>, read in two's complement.
\<close>

definition to_intptr :: "int \<Rightarrow> int" where
  "to_intptr x = (let y = x mod 2 ^ 64 in if y < 2 ^ 63 then y else y - 2 ^ 64)"

definition MemAlloc :: "Backing \<Rightarrow> int \<Rightarrow> int \<Rightarrow> error + (int \<times> Backing)" where
  "MemAlloc b sz alignment =
     (case Fresh b of
        [] \<Rightarrow> Inl OutOfMemory
      | p # ps \<Rightarrow>
          if p = 0 then Inl OutOfMemory
          else Inr (p, b\<lparr>Fresh := ps, Allocs := Allocs b @ [(p, sz, alignment)]\<rparr>))"


text \<open>
  \<open>DS_StackAllocator::Init\<close> overwrites the fields of \<open>this\<close>; a null
  \<open>backing_allocator\<close> selects the heap allocator, so that an allocator is there in
  both cases.
\<close>

definition Init :: "DS_StackAllocator \<Rightarrow> Backing \<Rightarrow> int \<Rightarrow> int \<Rightarrow> int \<Rightarrow> error + DS_StackAllocator" where
  "Init this backing_allocator initial_block block_size block_alignment =
     (let a = this\<lparr>BackingAllocator := backing_allocator,
                  FirstBlock := initial_block,
                  Mark := \<lparr>Block = initial_block, Ptr = 0\<rparr>,
                  BlockSize := block_size,
                  BlockAlignment := block_alignment\<rparr>
      in if initial_block \<noteq> 0 then
           (if initial_block AND (block_alignment - 1) \<noteq> 0 then Inl AssertFailed
            else Inr (a\<lparr>Headers := (Headers a)(initial_block :=
                          \<lparr>SizeIncludingHeader = block_size,
                           AllocatedFromBackingAllocator = False,
                           Next = 0\<rparr>),
                        Mark := \<lparr>Block = initial_block,
                                 Ptr = initial_block + sizeof_DS_StackBlockHeader\<rparr>\<rparr>))
         else Inr a)"

definition PushUninitialized :: "DS_StackAllocator \<Rightarrow> int \<Rightarrow> int \<Rightarrow> error + (int \<times> DS_StackAllocator)" where
  "PushUninitialized a sz alignment =
     (let alignment_is_power_of_2 = (alignment AND (alignment - 1) = 0)
      in if \<not> (alignment \<noteq> 0 \<and> alignment_is_power_of_2) then Inl AssertFailed
         else if \<not> alignment \<le> BlockAlignment a then Inl AssertFailed
         else
           (let curr_block = Block (Mark a);
                curr_ptr = Ptr (Mark a);
                result = DS_AlignUpPow2 curr_ptr alignment;
                remaining_space =
                  (if curr_block \<noteq> 0
                   then SizeIncludingHeader (Headers a curr_block) - (result - curr_block)
                   else 0)
            in if to_intptr sz > remaining_space then
                 (let result_offset = DS_AlignUpPow2 sizeof_DS_StackBlockHeader alignment;
                      new_block_size =
                        (if BlockSize a > to_intptr (result_offset + sz) then BlockSize a
                         else to_intptr (result_offset + sz));
                      next_block =
                        (if curr_block \<noteq> 0 \<and> Next (Headers a curr_block) \<noteq> 0
                         then Next (Headers a curr_block) else 0);
                      new_block =
                        (if next_block \<noteq> 0 \<and>
                            to_intptr sz \<le> SizeIncludingHeader (Headers a next_block) - result_offset
                         then next_block else 0)
                  in if new_block = 0 then
                       (case MemAlloc (BackingAllocator a) new_block_size (BlockAlignment a) of
                          Inl e \<Rightarrow> Inl e
                        | Inr (allocated, backing) \<Rightarrow>
                            if allocated AND (BlockAlignment a - 1) \<noteq> 0 then Inl AssertFailed
                            else
                              (let headers1 = (Headers a)(allocated :=
                                     \<lparr>SizeIncludingHeader = new_block_size mod 2 ^ 32,
                                      AllocatedFromBackingAllocator = True,
                                      Next = next_block\<rparr>);
                                   headers2 =
                                     (if curr_block \<noteq> 0
                                      then headers1(curr_block := (headers1 curr_block)\<lparr>Next := allocated\<rparr>)
                                      else headers1);
                                   first_block =
                                     (if curr_block \<noteq> 0 then FirstBlock a else allocated)
                               in Inr (allocated + result_offset,
                                       a\<lparr>BackingAllocator := backing,
                                         Headers := headers2,
                                         FirstBlock := first_block,
                                         Mark := \<lparr>Block = allocated,
                                                  Ptr = allocated + result_offset + sz\<rparr>\<rparr>)))
                     else Inr (new_block + result_offset,
                               a\<lparr>Mark := \<lparr>Block = new_block,
                                          Ptr = new_block + result_offset + sz\<rparr>\<rparr>))
               else Inr (result, a\<lparr>Mark := \<lparr>Block = curr_block, Ptr = result + sz\<rparr>\<rparr>)))"




definition SetMark :: "DS_StackAllocator \<Rightarrow> DS_StackMark \<Rightarrow> DS_StackAllocator" where
  "SetMark a mark =
     (if Block mark = 0 then
        a\<lparr>Mark := \<lparr>Block = FirstBlock a, Ptr = FirstBlock a + sizeof_DS_StackBlockHeader\<rparr>\<rparr>
      else a\<lparr>Mark := mark\<rparr>)"








text \<open>
  Concrete arenas for the examples: \<open>blank_arena\<close> is an object that \<open>Init\<close> has not
  seen yet, in a memory of zero bytes; \<open>heap_of ps\<close> is a backing allocator that will
  return the addresses \<open>ps\<close>; \<open>fresh_arena ps block_size block_alignment\<close> is what
  \<open>Init\<close> without an initial block makes of them.
\<close>

definition blank_arena :: DS_StackAllocator where
  "blank_arena =
     \<lparr>BackingAllocator = \<lparr>Fresh = [], Allocs = [], Frees = []\<rparr>,
      FirstBlock = 0, Mark = \<lparr>Block = 0, Ptr = 0\<rparr>, BlockSize = 0, BlockAlignment = 0,
      Headers = (\<lambda>p. \<lparr>SizeIncludingHeader = 0, AllocatedFromBackingAllocator = False, Next = 0\<rparr>),
      Bytes = (\<lambda>p. 0)\<rparr>"

definition heap_of :: "int list \<Rightarrow> Backing" where
  "heap_of ps = \<lparr>Fresh = ps, Allocs = [], Frees = []\<rparr>"

definition fresh_arena :: "int list \<Rightarrow> int \<Rightarrow> int \<Rightarrow> DS_StackAllocator" where
  "fresh_arena ps block_size block_alignment =
     blank_arena\<lparr>BackingAllocator := heap_of ps, BlockSize := block_size,
                 BlockAlignment := block_alignment\<rparr>"

subsection \<open>Well-formed arenas\<close>

text \<open>
  \<open>chain headers p bs\<close>: following \<open>Next\<close> from the pointer \<open>p\<close> visits exactly the
  blocks \<open>bs\<close> and then reaches the null pointer.
\<close>

fun chain :: "(int \<Rightarrow> DS_StackBlockHeader) \<Rightarrow> int \<Rightarrow> int list \<Rightarrow> bool" where
  "chain hs p [] \<longleftrightarrow> p = 0"
| "chain hs p (b # bs) \<longleftrightarrow> p = b \<and> b \<noteq> 0 \<and> chain hs (Next (hs b)) bs"

text \<open>The test of the source for a power of two, on a value that is not zero.\<close>

definition is_pow2 :: "int \<Rightarrow> bool" where
  "is_pow2 x \<longleftrightarrow> 0 < x \<and> x AND (x - 1) = 0"

text \<open>
  What \<open>Init\<close> establishes and \<open>PushUninitialized\<close>, \<open>SetMark\<close> (to a mark of a block
  of the arena) and \<open>Reset\<close> keep, for an arena whose blocks are \<open>bs\<close>: the blocks form
  a chain without repetition from \<open>FirstBlock\<close>; the mark is in one of them, or null when
  there is none; \<open>BlockAlignment\<close> is a power of two and \<open>BlockSize\<close> a \<open>uint32_t\<close>;
  every block is aligned, is no smaller than \<open>BlockSize\<close>, and has exactly that size
  when the caller supplied it; and the backing allocator returns addresses that are
  distinct from each other and from the blocks in use.
\<close>

definition arena_inv :: "DS_StackAllocator \<Rightarrow> int list \<Rightarrow> bool" where
  "arena_inv a bs \<longleftrightarrow>
     chain (Headers a) (FirstBlock a) bs \<and> distinct bs \<and>
     (if bs = [] then Block (Mark a) = 0 else Block (Mark a) \<in> set bs) \<and>
     is_pow2 (BlockAlignment a) \<and> 0 \<le> BlockSize a \<and> BlockSize a < 2 ^ 32 \<and>
     (\<forall>b \<in> set bs.
        b AND (BlockAlignment a - 1) = 0 \<and>
        BlockSize a \<le> SizeIncludingHeader (Headers a b) \<and>
        (AllocatedFromBackingAllocator (Headers a b) \<or>
         SizeIncludingHeader (Headers a b) = BlockSize a)) \<and>
     distinct (Fresh (BackingAllocator a)) \<and>
     set bs \<inter> set (Fresh (BackingAllocator a)) = {}"

text \<open>
  A request \<open>(sz, alignment)\<close> of two \<open>size_t\<close> values whose block would fit the
  \<open>uint32_t\<close> field \<open>SizeIncludingHeader\<close>.
\<close>

definition valid_request :: "int \<times> int \<Rightarrow> bool" where
  "valid_request r \<longleftrightarrow>
     0 \<le> fst r \<and> 0 \<le> snd r \<and>
     DS_AlignUpPow2 sizeof_DS_StackBlockHeader (snd r) + fst r < 2 ^ 32"

text \<open>
  Names for the local variables of \<open>PushUninitialized\<close>: \<open>remaining_space\<close>,
  \<open>curr_block->Next\<close> (null when there is no current block), \<open>result_offset\<close>, and the
  arena after a block \<open>nb\<close> has been allocated and linked.
\<close>

definition push_remaining :: "DS_StackAllocator \<Rightarrow> int \<Rightarrow> int" where
  "push_remaining a alignment =
     (if Block (Mark a) \<noteq> 0
      then SizeIncludingHeader (Headers a (Block (Mark a)))
             - (DS_AlignUpPow2 (Ptr (Mark a)) alignment - Block (Mark a))
      else 0)"

definition push_next :: "DS_StackAllocator \<Rightarrow> int" where
  "push_next a = (if Block (Mark a) \<noteq> 0 then Next (Headers a (Block (Mark a))) else 0)"

definition push_offset :: "int \<Rightarrow> int" where
  "push_offset alignment = DS_AlignUpPow2 sizeof_DS_StackBlockHeader alignment"

definition push_alloc :: "DS_StackAllocator \<Rightarrow> int \<Rightarrow> int \<Rightarrow> int \<Rightarrow> DS_StackAllocator" where
  "push_alloc a sz alignment nb =
     a\<lparr>BackingAllocator := (BackingAllocator a)\<lparr>Fresh := tl (Fresh (BackingAllocator a)),
          Allocs := Allocs (BackingAllocator a) @
            [(nb, max (BlockSize a) (push_offset alignment + sz), BlockAlignment a)]\<rparr>,
       Headers :=
         (let headers1 = (Headers a)(nb :=
                \<lparr>SizeIncludingHeader = max (BlockSize a) (push_offset alignment + sz) mod 2 ^ 32,
                 AllocatedFromBackingAllocator = True,
                 Next = push_next a\<rparr>)
          in if Block (Mark a) \<noteq> 0
             then headers1(Block (Mark a) := (headers1 (Block (Mark a)))\<lparr>Next := nb\<rparr>)
             else headers1),
       FirstBlock := (if Block (Mark a) \<noteq> 0 then FirstBlock a else nb),
       Mark := \<lparr>Block = nb, Ptr = nb + push_offset alignment + sz\<rparr>\<rparr>"

text \<open>An arena whose mark is in a block, with the blocks before and behind that block.\<close>

definition arena_at :: "DS_StackAllocator \<Rightarrow> int list \<Rightarrow> int list \<Rightarrow> bool" where
  "arena_at a pre post \<longleftrightarrow> Block (Mark a) \<noteq> 0 \<and> arena_inv a (pre @ Block (Mark a) # post)"



definition example_arena1 :: DS_StackAllocator where
  "example_arena1 = snd (projr (PushUninitialized (fresh_arena [4096] 64 16) 8 1))"

subsection \<open>The C runtime behind the heap allocator\<close>






section \<open>The tables: what the claims are about\<close>

subsection \<open>Keys, probe sequences and the load factor\<close>

text \<open>
  The slot where the probe for a key starts, \<open>(uint32_t)key & mask\<close>, as an index.
\<close>

definition home :: "('k \<Rightarrow> u32) \<Rightarrow> 'e DS_Table \<Rightarrow> 'k \<Rightarrow> nat" where
  "home h s key = unat (h key AND ((word_of_int (NumSlots s) :: u32) - 1))"

text \<open>
  \<open>reaches xs start slot\<close>: scanning \<open>xs\<close> forward from \<open>start\<close>, with wraparound, comes to
  \<open>slot\<close> within one round and meets no empty slot strictly before it. The empty slot is
  the one that holds the default key \<open>0\<close>.
\<close>

definition reaches :: "'k::zero list \<Rightarrow> nat \<Rightarrow> nat \<Rightarrow> bool" where
  "reaches xs start slot \<longleftrightarrow>
     (\<exists>d\<in>{..<length xs}. (start + d) mod length xs = slot \<and>
        (\<forall>e\<in>{..<d}. xs ! ((start + e) mod length xs) \<noteq> 0))"

text \<open>
  The probe-chain invariant: every occupied slot is reached from the initial slot of the
  key it holds.
\<close>

definition probe_chain :: "('k::zero \<Rightarrow> nat) \<Rightarrow> 'k list \<Rightarrow> bool" where
  "probe_chain hm xs \<longleftrightarrow>
     (\<forall>i\<in>{..<length xs}. xs ! i \<noteq> 0 \<longrightarrow> reaches xs (hm (xs ! i)) i)"

text \<open>
  No key is in two slots, and the keys of a table: the contents of its occupied slots.
\<close>

definition distinct_keys :: "'k::zero list \<Rightarrow> bool" where
  "distinct_keys xs \<longleftrightarrow>
     (\<forall>i\<in>{..<length xs}. \<forall>j\<in>{..<length xs}. xs ! i \<noteq> 0 \<and> xs ! i = xs ! j \<longrightarrow> i = j)"

definition keys_of :: "'k::zero DS_Set \<Rightarrow> 'k set" where
  "keys_of s = set (Data s) - {0}"

text \<open>
  The shape of a table that the operations keep: \<open>Init\<close> has been called, \<open>Data\<close> has
  \<open>NumSlots\<close> slots, \<open>NumSlots\<close> is zero or a power of two in the \<open>int32_t\<close> range,
  \<open>NumElems\<close> counts the occupied slots, and \<open>70 * NumSlots\<close>, which \<open>Add\<close> computes, is in
  the \<open>int32_t\<close> range once the table holds a key. \<open>set_inv\<close> adds the load factor and the
  probe chains.
\<close>

definition table_shape :: "'k::zero DS_Set \<Rightarrow> bool" where
  "table_shape s \<longleftrightarrow>
     Allocator s \<and> int (length (Data s)) = NumSlots s \<and>
     (NumSlots s = 0 \<or> is_pow2 (NumSlots s)) \<and> NumSlots s \<le> 2 ^ 30 \<and>
     NumElems s = int (length (filter (\<lambda>k. k \<noteq> 0) (Data s))) \<and>
     (NumElems s = 0 \<or> 70 * NumSlots s \<le> 2147483647) \<and>
     distinct_keys (Data s)"

definition set_inv :: "('k::zero \<Rightarrow> u32) \<Rightarrow> 'k DS_Set \<Rightarrow> bool" where
  "set_inv h s \<longleftrightarrow>
     table_shape s \<and> 100 * NumElems s \<le> 70 * NumSlots s \<and>
     probe_chain (home h s) (Data s)"

text \<open>
  Auxiliary notions of the proofs. \<open>geom s j\<close>: the table has \<open>2 ^ j\<close> slots. The three
  postconditions are those of \<open>Add\<close>, \<open>Resize\<close> and the loop of \<open>Resize\<close>. In the
  backward-shift loop of \<open>Remove\<close> one slot \<open>p\<close> is a hole: \<open>wreach\<close> is \<open>reaches\<close> for a
  probe that may pass the hole, and \<open>shift_inv h s p t\<close> is the invariant of the loop when
  it stands \<open>t\<close> slots behind the hole: a key that is not reached from its initial slot is
  reached through the hole and lies more than \<open>t\<close> slots behind it.
\<close>

definition geom :: "'e DS_Table \<Rightarrow> nat \<Rightarrow> bool" where
  "geom s j \<longleftrightarrow> j \<le> 30 \<and> NumSlots s = 2 ^ j \<and> length (Data s) = 2 ^ j"

definition add_post :: "('k::zero \<Rightarrow> u32) \<Rightarrow> 'k DS_Set \<Rightarrow> 'k \<Rightarrow> bool \<Rightarrow> 'k DS_Set \<Rightarrow> bool" where
  "add_post h s key b s' \<longleftrightarrow>
     set_inv h s' \<and> keys_of s' = insert key (keys_of s) \<and> (b \<longleftrightarrow> key \<notin> keys_of s) \<and>
     NumSlots s \<le> NumSlots s' \<and> key \<noteq> 0"

definition resize_post :: "('k::zero \<Rightarrow> u32) \<Rightarrow> 'k DS_Set \<Rightarrow> int \<Rightarrow> 'k DS_Set \<Rightarrow> bool" where
  "resize_post h s n s' \<longleftrightarrow>
     set_inv h s' \<and> keys_of s' = keys_of s \<and> n \<le> NumSlots s' \<and>
     (keys_of s = {} \<longrightarrow> NumSlots s' = n)"

definition loop_post :: "('k::zero \<Rightarrow> u32) \<Rightarrow> 'k DS_Set \<Rightarrow> 'k list \<Rightarrow> 'k DS_Set \<Rightarrow> bool" where
  "loop_post h s rest s' \<longleftrightarrow>
     set_inv h s' \<and> keys_of s' = keys_of s \<union> (set rest - {0}) \<and>
     NumSlots s \<le> NumSlots s' \<and> (set rest \<subseteq> {0} \<longrightarrow> s' = s)"

definition wreach :: "'k::zero list \<Rightarrow> nat \<Rightarrow> nat \<Rightarrow> nat \<Rightarrow> bool" where
  "wreach xs p start slot \<longleftrightarrow>
     (\<exists>d\<in>{..<length xs}. (start + d) mod length xs = slot \<and>
        (\<forall>e\<in>{..<d}. xs ! ((start + e) mod length xs) \<noteq> 0 \<or> (start + e) mod length xs = p))"

definition shift_inv :: "('k::zero \<Rightarrow> u32) \<Rightarrow> 'k DS_Set \<Rightarrow> nat \<Rightarrow> nat \<Rightarrow> bool" where
  "shift_inv h s p t \<longleftrightarrow>
     table_shape s \<and> NumSlots s \<noteq> 0 \<and> 70 * NumSlots s \<le> 2147483647 \<and>
     100 * (NumElems s + 1) \<le> 70 * NumSlots s \<and>
     p < length (Data s) \<and> Data s ! p = 0 \<and>
     (\<forall>q\<in>{..<length (Data s)}. Data s ! q \<noteq> 0 \<longrightarrow>
        reaches (Data s) (home h s (Data s ! q)) q \<or>
        (wreach (Data s) p (home h s (Data s ! q)) q \<and>
         (\<forall>u\<in>{..t}. (p + u) mod length (Data s) \<noteq> q)))"

subsection \<open>The map seen as a set of keys\<close>

text \<open>
  \<open>keys_table m\<close> forgets the values of a map: what is left is a \<open>DS_Set\<close> with the same
  keys in the same slots. \<open>map_result\<close> applies a function to the value an operation
  returns and keeps an error, or the absence of a result, as it is.
\<close>

definition keys_table :: "('k, 'v) DS_Map \<Rightarrow> 'k DS_Set" where
  "keys_table m = \<lparr>Data = map Key (Data m), NumElems = NumElems m, NumSlots = NumSlots m,
     Allocator = Allocator m\<rparr>"

definition map_result :: "('a \<Rightarrow> 'b) \<Rightarrow> 'a result \<Rightarrow> 'b result" where
  "map_result f r = (case r of None \<Rightarrow> None | Some (Inl e) \<Rightarrow> Some (Inl e)
     | Some (Inr x) \<Rightarrow> Some (Inr (f x)))"

subsection \<open>Sequences of operations\<close>

text \<open>
  A sequence of calls on one set: \<open>Add\<close>, \<open>Remove\<close>, and \<open>Resize\<close> with the \<open>int\<close>
  argument whose 32 bits are \<open>n\<close>. A sequence stops at the first call that fails.
  \<open>keys_model\<close> is what the calls of a sequence do to a set of keys: after it, a key is
  there exactly when the last call on it was an \<open>Add\<close>.
\<close>

datatype 'k set_op = Op_Add 'k | Op_Remove 'k | Op_Resize u32

fun Set_step :: "nat \<Rightarrow> ('k::zero \<Rightarrow> u32) \<Rightarrow> 'k DS_Set \<Rightarrow> 'k set_op \<Rightarrow> 'k DS_Set result" where
  "Set_step fuel h s (Op_Add key) = map_result snd (Set_Add fuel h s key)"
| "Set_step fuel h s (Op_Remove key) = map_result snd (Set_Remove fuel h s key)"
| "Set_step fuel h s (Op_Resize n) = Set_Resize fuel h s (sint n)"

fun Set_run :: "nat \<Rightarrow> ('k::zero \<Rightarrow> u32) \<Rightarrow> 'k DS_Set \<Rightarrow> 'k set_op list \<Rightarrow> 'k DS_Set result" where
  "Set_run fuel h s [] = Some (Inr s)"
| "Set_run fuel h s (op # ops) =
     (case Set_step fuel h s op of
        None \<Rightarrow> None
      | Some (Inl e) \<Rightarrow> Some (Inl e)
      | Some (Inr s1) \<Rightarrow> Set_run fuel h s1 ops)"

fun keys_model :: "'k set \<Rightarrow> 'k set_op list \<Rightarrow> 'k set" where
  "keys_model K [] = K"
| "keys_model K (Op_Add key # ops) = keys_model (insert key K) ops"
| "keys_model K (Op_Remove key # ops) = keys_model (K - {key}) ops"
| "keys_model K (Op_Resize n # ops) = keys_model K ops"

text \<open>
  A sequence of calls on one map. \<open>Op_Set key v\<close> is \<open>Set(key, v)\<close>, which is \<open>Add\<close>
  followed by the store of \<open>v\<close> through the pointer that \<open>Add\<close> returns, and
  \<open>Op_Map_Resize n\<close> is \<open>Resize\<close>. There is no call of \<open>DS_Map::Remove\<close>, which cannot be
  instantiated. \<open>key_op\<close> is what a call does to the keys.
\<close>

datatype ('k, 'v) map_op = Op_Set 'k 'v | Op_Map_Resize u32

fun key_op :: "('k, 'v) map_op \<Rightarrow> 'k set_op" where
  "key_op (Op_Set key v) = Op_Add key"
| "key_op (Op_Map_Resize n) = Op_Resize n"

fun Map_step :: "nat \<Rightarrow> ('k::zero \<Rightarrow> u32) \<Rightarrow> ('k, 'v::zero) DS_Map \<Rightarrow> ('k, 'v) map_op
    \<Rightarrow> ('k, 'v) DS_Map result" where
  "Map_step fuel h m (Op_Set key v) = Map_Set fuel h m key v"
| "Map_step fuel h m (Op_Map_Resize n) = Map_Resize fuel h m (sint n)"

fun Map_run :: "nat \<Rightarrow> ('k::zero \<Rightarrow> u32) \<Rightarrow> ('k, 'v::zero) DS_Map
    \<Rightarrow> ('k, 'v) map_op list \<Rightarrow> ('k, 'v) DS_Map result" where
  "Map_run fuel h m [] = Some (Inr m)"
| "Map_run fuel h m (op # ops) =
     (case Map_step fuel h m op of
        None \<Rightarrow> None
      | Some (Inl e) \<Rightarrow> Some (Inl e)
      | Some (Inr m1) \<Rightarrow> Map_run fuel h m1 ops)"

text \<open>
  The tables of the examples: keys and values are \<open>uint32_t\<close> and the conversion of a key
  to \<open>uint32_t\<close> is the identity. The tables start with 8 slots; the keys 5, 13 and 21
  share the initial slot 5, the keys 7, 15, 23 and 31 the initial slot 7, and the sixth
  key makes the table grow to 16 slots.
\<close>

definition example_ops :: "u32 set_op list" where
  "example_ops = [Op_Add 5, Op_Add 13, Op_Add 21, Op_Remove 5, Op_Add 7,
     Op_Add 15, Op_Add 23, Op_Add 31, Op_Remove 7, Op_Add 13, Op_Remove 99]"

definition example_map_ops :: "(u32, u32) map_op list" where
  "example_map_ops = [Op_Set 5 50, Op_Set 13 130, Op_Set 21 210, Op_Set 7 70,
     Op_Set 15 150, Op_Set 23 230, Op_Map_Resize 32, Op_Set 13 131]"

definition example_set0 :: "u32 DS_Set" where
  "example_set0 = projr (the (Set_Init 40 (\<lambda>k. k) 8))"

definition example_set :: "u32 DS_Set" where
  "example_set = projr (the (Set_run 80 (\<lambda>k. k) example_set0 example_ops))"

definition example_map0 :: "(u32, u32) DS_Map" where
  "example_map0 = projr (the (Map_Init 40 (\<lambda>k. k) 8))"

definition example_map :: "(u32, u32) DS_Map" where
  "example_map = projr (the (Map_run 80 (\<lambda>k. k) example_map0 example_map_ops))"

text \<open>
  The example map after \<open>Set(77, 770)\<close>; tables on which only \<open>Init\<close> with no slots was
  called; and the set that holds the key 5 in 8 slots.
\<close>

definition example_map1 :: "(u32, u32) DS_Map" where
  "example_map1 = projr (the (Map_Set 80 (\<lambda>k. k) example_map 77 770))"

definition blank_set :: "u32 DS_Set" where
  "blank_set = \<lparr>Data = [], NumElems = 0, NumSlots = 0, Allocator = True\<rparr>"

definition blank_map :: "(u32, u32) DS_Map" where
  "blank_map = \<lparr>Data = [], NumElems = 0, NumSlots = 0, Allocator = True\<rparr>"

definition example_set5 :: "u32 DS_Set" where
  "example_set5 = \<lparr>Data = [0, 0, 0, 0, 0, 5, 0, 0], NumElems = 1, NumSlots = 8, Allocator = True\<rparr>"
section \<open>The scenario of the two colliding keys\<close>

text \<open>
  C3. A set of \<open>uint32_t\<close> keys (the conversion to \<open>uint32_t\<close> is the identity) with
  8 slots, starting empty. Keys 5 and 13 both have the initial slot 5 under the mask 7.
  \<open>Add(5)\<close> puts 5 in slot 5, \<open>Add(13)\<close> puts 13 in slot 6, and \<open>Remove(5)\<close> returns true
  and leaves 13 in slot 5, the initial slot of the key 5; afterwards \<open>Has(13)\<close> is true.
\<close>

theorem Set_add_5_13_remove_5:
  "Set_Init 16 (\<lambda>k::u32. k) 8
     = Some (Inr \<lparr>Data = [0, 0, 0, 0, 0, 0, 0, 0], NumElems = 0, NumSlots = 8, Allocator = True\<rparr>) \<and>
   (5::u32) AND (word_of_int 8 - 1) = 5 \<and> (13::u32) AND (word_of_int 8 - 1) = 5 \<and>
   Set_Add 16 (\<lambda>k::u32. k)
       \<lparr>Data = [0, 0, 0, 0, 0, 0, 0, 0], NumElems = 0, NumSlots = 8, Allocator = True\<rparr> 5
     = Some (Inr (True, \<lparr>Data = [0, 0, 0, 0, 0, 5, 0, 0], NumElems = 1, NumSlots = 8, Allocator = True\<rparr>)) \<and>
   Set_Add 16 (\<lambda>k::u32. k)
       \<lparr>Data = [0, 0, 0, 0, 0, 5, 0, 0], NumElems = 1, NumSlots = 8, Allocator = True\<rparr> 13
     = Some (Inr (True, \<lparr>Data = [0, 0, 0, 0, 0, 5, 13, 0], NumElems = 2, NumSlots = 8, Allocator = True\<rparr>)) \<and>
   Set_Remove 16 (\<lambda>k::u32. k)
       \<lparr>Data = [0, 0, 0, 0, 0, 5, 13, 0], NumElems = 2, NumSlots = 8, Allocator = True\<rparr> 5
     = Some (Inr (True, \<lparr>Data = [0, 0, 0, 0, 0, 13, 0, 0], NumElems = 1, NumSlots = 8, Allocator = True\<rparr>)) \<and>
   Set_Has 16 (\<lambda>k::u32. k)
       \<lparr>Data = [0, 0, 0, 0, 0, 13, 0, 0], NumElems = 1, NumSlots = 8, Allocator = True\<rparr> 13
     = Some (Inr True) \<and>
   [0, 0, 0, 0, 0, 13, 0, 0 :: u32] ! unat ((5::u32) AND (word_of_int 8 - 1)) = 13"
  by code_simp

section \<open>DS\_String: the operators on equal strings\<close>

text \<open>
  C10, evaluated on the code: for the two equal strings \<open>"ab"\<close> and \<open>"ab"\<close>, both
  \<open>operator==\<close> and \<open>operator!=\<close> return true, in the \<open>DS_String\<close> overloads and in the
  \<open>const char*\<close> overloads. So \<open>!=\<close> is not the negation of \<open>==\<close> in the code: its second
  disjunct tests \<open>memcmp(...) == 0\<close> where the negation of \<open>==\<close> needs \<open>!= 0\<close>.
\<close>

theorem DS_String_ne_equal_strings:
  "DS_String_eq [97, 98] [97, 98] \<and> DS_String_ne [97, 98] [97, 98] \<and>
   DS_String_eq_cstr [97, 98] (Some [97, 98]) \<and> DS_String_ne_cstr [97, 98] (Some [97, 98])"
  by (simp add: DS_String_eq_def DS_String_ne_def DS_String_eq_cstr_def
      DS_String_ne_cstr_def other_len_def cstr_bytes_def numeral_2_eq_2)

theorem DS_String_ne_equal_strings_witness:
  "DS_String_ne [97, 98] [97, 98] = DS_String_eq [97, 98] [97, 98] \<and>
   DS_String_ne_cstr [97, 98] (Some [97, 98]) = DS_String_eq_cstr [97, 98] (Some [97, 98])"
  using DS_String_ne_equal_strings by simp

section \<open>The arena: alignment, chains of blocks, and the steps of a push\<close>

lemma to_intptr_id: "0 \<le> x \<Longrightarrow> x < 2 ^ 63 \<Longrightarrow> to_intptr x = x"
  by (simp add: to_intptr_def Let_def)

lemma push_offset_nonneg: "0 \<le> al \<Longrightarrow> 0 \<le> push_offset al"
  by (simp add: push_offset_def DS_AlignUpPow2_def sizeof_DS_StackBlockHeader_def)

lemma push_cases:
  assumes "PushUninitialized a sz al = Inr (p, a1)"
    and "0 \<le> sz" "0 \<le> al" "push_offset al + sz < 2 ^ 63"
  shows "al \<noteq> 0 \<and> al AND (al - 1) = 0 \<and> al \<le> BlockAlignment a \<and>
    ((sz \<le> push_remaining a al \<and> p = DS_AlignUpPow2 (Ptr (Mark a)) al \<and>
        a1 = a\<lparr>Mark := \<lparr>Block = Block (Mark a), Ptr = p + sz\<rparr>\<rparr>) \<or>
     (push_remaining a al < sz \<and> push_next a \<noteq> 0 \<and>
        sz \<le> SizeIncludingHeader (Headers a (push_next a)) - push_offset al \<and>
        p = push_next a + push_offset al \<and>
        a1 = a\<lparr>Mark := \<lparr>Block = push_next a, Ptr = p + sz\<rparr>\<rparr>) \<or>
     (push_remaining a al < sz \<and>
        \<not> (push_next a \<noteq> 0 \<and> sz \<le> SizeIncludingHeader (Headers a (push_next a)) - push_offset al) \<and>
        (\<exists>nb rest. Fresh (BackingAllocator a) = nb # rest \<and> nb \<noteq> 0 \<and>
           nb AND (BlockAlignment a - 1) = 0 \<and> p = nb + push_offset al \<and>
           a1 = push_alloc a sz al nb)))"
proof -
  from assms(2,3,4) push_offset_nonneg[OF assms(3)]
  have t: "to_intptr sz = sz"
    "to_intptr (DS_AlignUpPow2 sizeof_DS_StackBlockHeader al + sz)
       = DS_AlignUpPow2 sizeof_DS_StackBlockHeader al + sz"
    by (simp_all add: to_intptr_id push_offset_def)
  show ?thesis
    using assms(1)
    unfolding PushUninitialized_def push_remaining_def push_next_def push_offset_def push_alloc_def
      MemAlloc_def Let_def t
    by (auto split: if_splits list.splits simp: max_def)
qed

lemma and_not_mask_int: "(x::int) AND NOT (2 ^ k - 1) = (x div 2 ^ k) * 2 ^ k"
proof -
  have "x AND NOT (mask k) = push_bit k (drop_bit k x)"
    by (rule bit_eqI) (auto simp: bit_simps)
  then show ?thesis
    by (simp add: mask_eq_exp_minus_1 push_bit_eq_mult drop_bit_eq_div)
qed

lemma and_mask_int: "(x::int) AND (2 ^ k - 1) = x mod 2 ^ k"
  using take_bit_eq_mask[of k x] by (simp add: mask_eq_exp_minus_1 take_bit_eq_mod)

lemma AlignUp_div: "DS_AlignUpPow2 x (2 ^ k) = ((x + 2 ^ k - 1) div 2 ^ k) * 2 ^ k"
  by (simp add: DS_AlignUpPow2_def and_not_mask_int)

lemma AlignUp_aligned: "DS_AlignUpPow2 x (2 ^ k) AND (2 ^ k - 1) = 0"
  by (simp add: AlignUp_div and_mask_int)

lemma AlignUp_shift:
  assumes "b AND (2 ^ k - 1) = 0"
  shows "DS_AlignUpPow2 (b + y) (2 ^ k) = b + DS_AlignUpPow2 y (2 ^ k)"
proof -
  from assms have "b mod 2 ^ k = 0" by (simp add: and_mask_int)
  then obtain q where b: "b = q * 2 ^ k" by (metis mod_eq_0_iff_dvd dvd_def mult.commute)
  have "(q * 2 ^ k + y + 2 ^ k - 1) div 2 ^ k = q + (y + 2 ^ k - 1) div (2 ^ k :: int)"
    by (smt (verit) div_mult_self3 zero_less_power)
  then show ?thesis
    by (simp add: AlignUp_div b algebra_simps)
qed

lemma aligned_weaken:
  assumes "b AND (2 ^ j - 1) = (0::int)" "k \<le> j"
  shows "b AND (2 ^ k - 1) = 0"
proof -
  from assms have "b mod 2 ^ j = 0" by (simp add: and_mask_int)
  then have "2 ^ j dvd b" by (simp add: mod_eq_0_iff_dvd)
  moreover have "(2::int) ^ k dvd 2 ^ j" using assms(2) by (simp add: le_imp_power_dvd)
  ultimately have "2 ^ k dvd b" by (rule dvd_trans[rotated])
  then show ?thesis by (simp add: and_mask_int)
qed

lemma aligned_add:
  assumes "b AND (2 ^ k - 1) = (0::int)" "c AND (2 ^ k - 1) = 0"
  shows "(b + c) AND (2 ^ k - 1) = 0"
  using assms by (simp add: and_mask_int mod_eq_0_iff_dvd)

lemma chain_upd_notin: "b \<notin> set bs \<Longrightarrow> chain (hs(b := h)) p bs = chain hs p bs"
  by (induction bs arbitrary: p) auto

lemma chain_split: "chain hs p (pre @ c # post) \<Longrightarrow> c \<noteq> 0 \<and> chain hs (Next (hs c)) post"
  by (induction pre arbitrary: p) auto

lemma chain_start: "chain hs p bs \<Longrightarrow> p = (case bs of [] \<Rightarrow> 0 | b # _ \<Rightarrow> b)"
  by (cases bs) auto

lemma chain_nonzero: "chain hs p bs \<Longrightarrow> 0 \<notin> set bs"
  by (induction bs arbitrary: p) auto

lemma chain_insert:
  assumes "chain hs p (pre @ c # post)" "distinct (pre @ c # post)"
    "nb \<notin> set (pre @ c # post)" "nb \<noteq> 0" "Next hn = Next (hs c)"
  shows "chain (hs(nb := hn, c := (hs c)\<lparr>Next := nb\<rparr>)) p (pre @ c # nb # post)"
proof -
  define H where "H = hs(nb := hn, c := (hs c)\<lparr>Next := nb\<rparr>)"
  have Hc: "Next (H c) = nb" and Hnb: "H nb = hn"
    using assms(3) by (auto simp: H_def)
  have Hpre: "\<And>x. x \<in> set pre \<Longrightarrow> H x = hs x"
    using assms(2,3) by (auto simp: H_def)
  have post: "\<And>q. chain H q post = chain hs q post"
    using assms(2,3) unfolding H_def by (simp add: chain_upd_notin)
  have "chain H p (pre @ c # nb # post)"
    using assms(1,4,5) Hpre
  proof (induction pre arbitrary: p)
    case Nil
    then show ?case by (simp add: Hc Hnb post)
  next
    case (Cons x pre)
    then show ?case by simp
  qed
  then show ?thesis by (simp add: H_def)
qed

lemma arena_at_next:
  assumes "arena_at a pre post"
  shows "push_next a = (case post of [] \<Rightarrow> 0 | b # _ \<Rightarrow> b)"
proof -
  from assms have "chain (Headers a) (FirstBlock a) (pre @ Block (Mark a) # post)"
    and "Block (Mark a) \<noteq> 0"
    by (auto simp: arena_at_def arena_inv_def)
  then show ?thesis
    using chain_split[of "Headers a" "FirstBlock a" pre "Block (Mark a)" post]
      chain_start[of "Headers a" "Next (Headers a (Block (Mark a)))" post]
    by (simp add: push_next_def)
qed

lemma push_step_fit:
  assumes "arena_at a pre post"
  shows "arena_at (a\<lparr>Mark := \<lparr>Block = Block (Mark a), Ptr = q\<rparr>\<rparr>) pre post"
  using assms by (simp add: arena_at_def arena_inv_def)

lemma push_step_reuse:
  assumes "arena_at a pre (x # post)"
  shows "arena_at (a\<lparr>Mark := \<lparr>Block = x, Ptr = q\<rparr>\<rparr>) (pre @ [Block (Mark a)]) post"
proof -
  from assms have "chain (Headers a) (FirstBlock a) (pre @ Block (Mark a) # x # post)"
    by (auto simp: arena_at_def arena_inv_def)
  then have "x \<noteq> 0" using chain_nonzero by fastforce
  then show ?thesis using assms by (simp add: arena_at_def arena_inv_def)
qed

lemma push_step_alloc:
  assumes at: "arena_at a pre post"
    and fresh: "Fresh (BackingAllocator a) = nb # rest" "nb \<noteq> 0"
      "nb AND (BlockAlignment a - 1) = 0"
    and ok: "0 \<le> sz" "push_offset al + sz < 2 ^ 32"
  shows "arena_at (push_alloc a sz al nb) (pre @ [Block (Mark a)]) post"
proof -
  let ?c = "Block (Mark a)"
  let ?bs = "pre @ ?c # post"
  from at have c: "?c \<noteq> 0" and inv: "arena_inv a ?bs" by (auto simp: arena_at_def)
  from inv fresh have nb: "nb \<notin> set ?bs" "nb \<notin> set rest" "distinct rest"
    "set ?bs \<inter> set rest = {}"
    by (auto simp: arena_inv_def)
  from inv have ch: "chain (Headers a) (FirstBlock a) ?bs" and d: "distinct ?bs"
    by (auto simp: arena_inv_def)
  let ?hn = "\<lparr>SizeIncludingHeader = max (BlockSize a) (push_offset al + sz) mod 2 ^ 32,
                 AllocatedFromBackingAllocator = True, Next = push_next a\<rparr>"
  have hs: "Headers (push_alloc a sz al nb)
      = (Headers a)(nb := ?hn, ?c := (Headers a ?c)\<lparr>Next := nb\<rparr>)"
    using c nb(1) by (auto simp: push_alloc_def Let_def)
  have ch': "chain (Headers (push_alloc a sz al nb)) (FirstBlock a) (pre @ ?c # nb # post)"
    unfolding hs using chain_insert[OF ch d nb(1) fresh(2), of ?hn] c
    by (simp add: push_next_def)
  have sz: "max (BlockSize a) (push_offset al + sz) mod 2 ^ 32 = max (BlockSize a) (push_offset al + sz)"
    using inv ok by (auto simp: arena_inv_def max_def)
  have "arena_inv (push_alloc a sz al nb) ((pre @ [?c]) @ nb # post)"
    unfolding arena_inv_def
    apply (intro conjI)
    subgoal using ch' c by (simp add: push_alloc_def)
    subgoal using d nb(1) by auto
    subgoal by (simp add: push_alloc_def)
    subgoal using inv by (simp add: push_alloc_def arena_inv_def)
    subgoal using inv by (simp add: push_alloc_def arena_inv_def)
    subgoal using inv by (simp add: push_alloc_def arena_inv_def)
    subgoal using inv fresh(3) nb(1) c sz unfolding hs
      by (auto simp: push_alloc_def arena_inv_def)
    subgoal using nb fresh by (simp add: push_alloc_def)
    subgoal using nb fresh by (auto simp: push_alloc_def)
    done
  then show ?thesis using fresh(2) by (simp add: arena_at_def push_alloc_def)
qed

lemma push_first_alloc:
  assumes inv: "arena_inv a []"
    and fresh: "Fresh (BackingAllocator a) = nb # rest" "nb \<noteq> 0"
      "nb AND (BlockAlignment a - 1) = 0"
    and ok: "0 \<le> sz" "push_offset al + sz < 2 ^ 32"
  shows "arena_at (push_alloc a sz al nb) [] []"
proof -
  have sz: "max (BlockSize a) (push_offset al + sz) mod 2 ^ 32 = max (BlockSize a) (push_offset al + sz)"
    using inv ok by (auto simp: arena_inv_def max_def)
  from inv have m: "Block (Mark a) = 0" by (simp add: arena_inv_def)
  show ?thesis
    using inv fresh sz m
    by (auto simp: arena_at_def arena_inv_def push_alloc_def push_next_def Let_def)
qed

lemma valid_requestD:
  "valid_request (sz, al) \<Longrightarrow> 0 \<le> sz \<and> 0 \<le> al \<and> push_offset al + sz < 2 ^ 32"
  by (simp add: valid_request_def push_offset_def)

lemma valid_request_bounds:
  assumes "valid_request (sz, al)"
  shows "0 \<le> sz" "0 \<le> al" "push_offset al + sz < 2 ^ 63" "sz < 2 ^ 63"
  using valid_requestD[OF assms] push_offset_nonneg[of al] by auto

lemma push_step:
  assumes at: "arena_at a pre post"
    and push: "PushUninitialized a sz al = Inr (p, a1)"
    and v: "valid_request (sz, al)"
  shows "\<exists>pre1 post1. arena_at a1 pre1 post1 \<and>
    BlockSize a1 = BlockSize a \<and> BlockAlignment a1 = BlockAlignment a \<and>
    FirstBlock a1 = FirstBlock a \<and>
    (\<forall>b\<in>set pre. Headers a1 b = Headers a b) \<and>
    (\<forall>b\<in>set (pre @ Block (Mark a) # post).
        SizeIncludingHeader (Headers a1 b) = SizeIncludingHeader (Headers a b)) \<and>
    set (pre @ Block (Mark a) # post) \<subseteq> set (pre1 @ Block (Mark a1) # post1) \<and>
    ((pre1 = pre \<and> Block (Mark a1) = Block (Mark a) \<and> sz \<le> push_remaining a al \<and>
        p = DS_AlignUpPow2 (Ptr (Mark a)) al \<and> Ptr (Mark a1) = p + sz) \<or>
     (pre1 = pre @ [Block (Mark a)] \<and> push_remaining a al < sz \<and>
        Next (Headers a1 (Block (Mark a))) = Block (Mark a1) \<and>
        sz \<le> SizeIncludingHeader (Headers a1 (Block (Mark a1))) - push_offset al \<and>
        p = Block (Mark a1) + push_offset al \<and> Ptr (Mark a1) = p + sz))"
proof -
  let ?c = "Block (Mark a)"
  from at have c: "?c \<noteq> 0" and inv: "arena_inv a (pre @ ?c # post)"
    by (auto simp: arena_at_def)
  note vd = valid_requestD[OF v]
  note pb = valid_request_bounds[OF v]
  from push_cases[OF push pb(1,2,3)] consider
    (fit) "sz \<le> push_remaining a al" "p = DS_AlignUpPow2 (Ptr (Mark a)) al"
      "a1 = a\<lparr>Mark := \<lparr>Block = ?c, Ptr = p + sz\<rparr>\<rparr>"
  | (reuse) "push_remaining a al < sz" "push_next a \<noteq> 0"
      "sz \<le> SizeIncludingHeader (Headers a (push_next a)) - push_offset al"
      "p = push_next a + push_offset al"
      "a1 = a\<lparr>Mark := \<lparr>Block = push_next a, Ptr = p + sz\<rparr>\<rparr>"
  | (alloc) nb rest where "push_remaining a al < sz"
      "Fresh (BackingAllocator a) = nb # rest" "nb \<noteq> 0"
      "nb AND (BlockAlignment a - 1) = 0" "p = nb + push_offset al"
      "a1 = push_alloc a sz al nb"
    by blast
  then show ?thesis
  proof cases
    case fit
    have "arena_at a1 pre post" unfolding fit(3) by (rule push_step_fit[OF at])
    then show ?thesis
      apply -
      apply (rule exI[of _ pre], rule exI[of _ post])
      using fit by simp
  next
    case reuse
    from arena_at_next[OF at] reuse(2) obtain x post' where post: "post = x # post'"
      and x: "push_next a = x"
      by (cases post) auto
    have "arena_at a1 (pre @ [?c]) post'"
      unfolding reuse(5) x using push_step_reuse at post by blast
    then show ?thesis
      apply -
      apply (rule exI[of _ "pre @ [?c]"], rule exI[of _ post'])
      using reuse x post c by (auto simp: push_next_def)
  next
    case alloc
    have at1: "arena_at a1 (pre @ [?c]) post"
      unfolding alloc(6) using push_step_alloc[OF at alloc(2,3,4)] vd by blast
    from inv alloc(2) have nb: "nb \<notin> set (pre @ ?c # post)"
      by (auto simp: arena_inv_def)
    from inv have d: "distinct (pre @ ?c # post)" by (simp add: arena_inv_def)
    have sz: "max (BlockSize a) (push_offset al + sz) mod 2 ^ 32 = max (BlockSize a) (push_offset al + sz)"
      using inv vd by (auto simp: arena_inv_def max_def)
    have h1: "\<forall>b\<in>set pre. Headers a1 b = Headers a b"
      using nb d c by (auto simp: alloc(6) push_alloc_def Let_def)
    have h2: "\<forall>b\<in>set (pre @ ?c # post).
        SizeIncludingHeader (Headers a1 b) = SizeIncludingHeader (Headers a b)"
      using nb d c by (auto simp: alloc(6) push_alloc_def Let_def)
    have h3: "Next (Headers a1 ?c) = nb" "Block (Mark a1) = nb"
      "SizeIncludingHeader (Headers a1 nb) = max (BlockSize a) (push_offset al + sz)"
      "Ptr (Mark a1) = p + sz"
      using nb c sz by (auto simp: alloc(6,5) push_alloc_def Let_def)
    have h4: "BlockSize a1 = BlockSize a" "BlockAlignment a1 = BlockAlignment a"
      "FirstBlock a1 = FirstBlock a"
      using c by (auto simp: alloc(6) push_alloc_def)
    show ?thesis
      apply (rule exI[of _ "pre @ [?c]"], rule exI[of _ post])
      using at1 h1 h2 h3 h4 alloc(1,5) by auto
  qed
qed







lemma pow2_bit_trick: "0 < (x::int) \<Longrightarrow> x AND (x - 1) = 0 \<Longrightarrow> \<exists>k::nat. x = 2 ^ k"
proof (induction "nat x" arbitrary: x rule: less_induct)
  case less
  define m where "m = x div 2"
  show ?case
  proof (cases "even x")
    case True
    then have x: "x = 2 * m" by (simp add: m_def)
    with less.prems have m: "0 < m" by simp
    have "(x - 1) div 2 = m - 1" unfolding x by simp
    then have "x AND (x - 1) = 2 * (m AND (m - 1))"
      using True by (subst and_int_rec) (simp add: m_def)
    with less.prems have "m AND (m - 1) = 0" by simp
    moreover have "nat m < nat x" using m x by simp
    ultimately obtain k :: nat where "m = 2 ^ k" using less.hyps m by blast
    then have "x = 2 ^ (Suc k)" using x by simp
    then show ?thesis by blast
  next
    case False
    then have x: "x = 2 * m + 1" by (simp add: m_def)
    have "(x - 1) div 2 = m" unfolding x by simp
    then have "x AND (x - 1) = 2 * (m AND m)"
      using False by (subst and_int_rec) (simp add: m_def)
    with less.prems have "m = 0" by simp
    then have "x = 2 ^ 0" using x by simp
    then show ?thesis by blast
  qed
qed

lemma is_pow2D: "is_pow2 x \<Longrightarrow> \<exists>k::nat. x = 2 ^ k"
  by (auto simp: is_pow2_def intro: pow2_bit_trick)

lemma AlignUp_aligned_request:
  assumes "0 \<le> al" "al \<noteq> 0" "al AND (al - 1) = 0"
  shows "DS_AlignUpPow2 y al AND (al - 1) = 0"
proof -
  from assms obtain k :: nat where k: "al = 2 ^ k" using pow2_bit_trick[of al] by auto
  show ?thesis unfolding k by (rule AlignUp_aligned)
qed

lemma aligned_block_request:
  assumes ba: "is_pow2 ba" and al: "0 \<le> al" "al \<noteq> 0" "al AND (al - 1) = 0" "al \<le> ba"
    and b: "b AND (ba - 1) = 0"
  shows "b AND (al - 1) = 0"
    and "DS_AlignUpPow2 (b + y) al = b + DS_AlignUpPow2 y al"
proof -
  from ba obtain j :: nat where j: "ba = 2 ^ j" using is_pow2D by blast
  from al obtain k :: nat where k: "al = 2 ^ k" using pow2_bit_trick[of al] by auto
  from al(4) j k have "k \<le> j" by simp
  with b j k show 1: "b AND (al - 1) = 0" using aligned_weaken by blast
  show "DS_AlignUpPow2 (b + y) al = b + DS_AlignUpPow2 y al"
    using 1 unfolding k by (rule AlignUp_shift)
qed

section \<open>The checkpoint law\<close>


text \<open>Instances: the mark in a block, and the null mark followed by three pushes.\<close>

lemma sum_fst_projr: "map_sum id fst x = Inr ps \<Longrightarrow> x = Inr (ps, snd (projr x))"
  by (cases x) auto

lemma inv_fresh_arena:
  "distinct ps \<Longrightarrow> is_pow2 ba \<Longrightarrow> 0 \<le> bsz \<Longrightarrow> bsz < 2 ^ 32 \<Longrightarrow> arena_inv (fresh_arena ps bsz ba) []"
  by (simp add: arena_inv_def fresh_arena_def blank_arena_def heap_of_def)


section \<open>Reset\<close>




section \<open>A push that needs a new block\<close>

text \<open>
  C8, as the code has it, for a size \<open>sz\<close> with \<open>result_offset + sz\<close> below \<open>2 ^ 63\<close>,
  where \<open>result_offset\<close> is the header size aligned up to the requested alignment: in
  that range the size is the same number as an \<open>intptr_t\<close>. On a well-formed arena a push
  that returns gives a pointer aligned to the requested alignment and moves the mark to
  the end of the region. When the space left in the current block is too small, it takes
  the block linked behind the current one if the request fits there behind
  \<open>result_offset\<close>, and calls no allocator; otherwise it allocates
  \<open>max (BlockSize, result_offset + sz)\<close> bytes with \<open>BlockAlignment\<close> from the backing
  allocator, marks the block as allocated, links it behind the current block and in
  front of the block that was linked there, or makes it the first block when there is no
  current block.
\<close>

theorem PushUninitialized_new_block:
  assumes inv: "arena_inv a bs" and al: "0 \<le> al"
    and sz: "0 \<le> sz" "push_offset al + sz < 2 ^ 63"
    and push: "PushUninitialized a sz al = Inr (p, a')"
  shows "p AND (al - 1) = 0 \<and> Ptr (Mark a') = p + sz \<and>
    (push_remaining a al < sz \<and> push_next a \<noteq> 0 \<and>
       sz \<le> SizeIncludingHeader (Headers a (push_next a)) - push_offset al \<longrightarrow>
       p = push_next a + push_offset al \<and> Block (Mark a') = push_next a \<and>
       BackingAllocator a' = BackingAllocator a \<and> Headers a' = Headers a \<and>
       FirstBlock a' = FirstBlock a) \<and>
    (push_remaining a al < sz \<and>
       \<not> (push_next a \<noteq> 0 \<and>
          sz \<le> SizeIncludingHeader (Headers a (push_next a)) - push_offset al) \<longrightarrow>
       (\<exists>nb rest. Fresh (BackingAllocator a) = nb # rest \<and>
          Fresh (BackingAllocator a') = rest \<and>
          Allocs (BackingAllocator a') = Allocs (BackingAllocator a) @
            [(nb, max (BlockSize a) (push_offset al + sz), BlockAlignment a)] \<and>
          Frees (BackingAllocator a') = Frees (BackingAllocator a) \<and>
          p = nb + push_offset al \<and> Block (Mark a') = nb \<and>
          AllocatedFromBackingAllocator (Headers a' nb) \<and>
          Next (Headers a' nb) = push_next a \<and>
          (if Block (Mark a) \<noteq> 0
           then Next (Headers a' (Block (Mark a))) = nb \<and> FirstBlock a' = FirstBlock a
           else FirstBlock a' = nb)))"
proof -
  note pc = push_cases[OF push sz(1) al sz(2)]
  from pc have asserts: "al \<noteq> 0" "al AND (al - 1) = 0" "al \<le> BlockAlignment a"
    by auto
  from inv have ba: "is_pow2 (BlockAlignment a)" by (simp add: arena_inv_def)
  note ab = aligned_block_request[OF ba al asserts]
  note aa = AlignUp_aligned_request[OF al asserts(1,2)]
  have mem: "Block (Mark a) \<noteq> 0 \<Longrightarrow> Block (Mark a) \<in> set bs"
    using inv by (auto simp: arena_inv_def split: if_splits)
  have nxt: "push_next a \<noteq> 0 \<Longrightarrow> push_next a \<in> set bs"
  proof -
    assume n: "push_next a \<noteq> 0"
    then have c: "Block (Mark a) \<noteq> 0" by (auto simp: push_next_def split: if_splits)
    from mem[OF c] obtain pre post where bs: "bs = pre @ Block (Mark a) # post"
      by (auto dest: split_list)
    with inv c have "arena_at a pre post" by (simp add: arena_at_def)
    from arena_at_next[OF this] n bs show ?thesis by (cases post) auto
  qed
  have blk: "\<And>b. b \<in> set bs \<Longrightarrow> b AND (BlockAlignment a - 1) = 0"
    using inv by (auto simp: arena_inv_def)
  from pc consider
    (fit) "sz \<le> push_remaining a al" "p = DS_AlignUpPow2 (Ptr (Mark a)) al"
      "a' = a\<lparr>Mark := \<lparr>Block = Block (Mark a), Ptr = p + sz\<rparr>\<rparr>"
  | (reuse) "push_remaining a al < sz" "push_next a \<noteq> 0"
      "sz \<le> SizeIncludingHeader (Headers a (push_next a)) - push_offset al"
      "p = push_next a + push_offset al"
      "a' = a\<lparr>Mark := \<lparr>Block = push_next a, Ptr = p + sz\<rparr>\<rparr>"
  | (alloc) nb rest where "push_remaining a al < sz"
      "\<not> (push_next a \<noteq> 0 \<and> sz \<le> SizeIncludingHeader (Headers a (push_next a)) - push_offset al)"
      "Fresh (BackingAllocator a) = nb # rest" "nb \<noteq> 0"
      "nb AND (BlockAlignment a - 1) = 0" "p = nb + push_offset al"
      "a' = push_alloc a sz al nb"
    by blast
  then show ?thesis
  proof cases
    case fit
    have "p AND (al - 1) = 0" unfolding fit(2) by (rule aa)
    then show ?thesis using fit by simp
  next
    case reuse
    have "p AND (al - 1) = 0"
      using ab(2)[OF blk[OF nxt[OF reuse(2)]], of sizeof_DS_StackBlockHeader]
        aa[of "push_next a + sizeof_DS_StackBlockHeader"]
      by (simp add: reuse(4) push_offset_def)
    then show ?thesis using reuse by simp
  next
    case alloc
    have "p AND (al - 1) = 0"
      using ab(2)[OF alloc(5), of sizeof_DS_StackBlockHeader]
        aa[of "nb + sizeof_DS_StackBlockHeader"]
      by (simp add: alloc(6) push_offset_def)
    moreover have "nb \<noteq> Block (Mark a)"
      using inv alloc(3) mem alloc(4) by (auto simp: arena_inv_def)
    ultimately show ?thesis using alloc
      by (auto simp: push_alloc_def Let_def)
  qed
qed

theorem PushUninitialized_new_block_witness:
  "Ptr (Mark (snd (projr (PushUninitialized (fresh_arena [4096, 8192, 12288] 64 16) 40 16))))
     = 4112 + 40 \<and>
   FirstBlock (snd (projr (PushUninitialized (fresh_arena [4096, 8192, 12288] 64 16) 40 16)))
     = 4096 \<and>
   Allocs (BackingAllocator
       (snd (projr (PushUninitialized (fresh_arena [4096, 8192, 12288] 64 16) 40 16))))
     = [(4096, 64, 16)] \<and>
   (4112 :: int) AND (16 - 1) = 0"
proof -
  let ?A = "fresh_arena [4096, 8192, 12288] 64 16"
  have inv: "arena_inv ?A []"
    by (rule inv_fresh_arena) (simp_all add: is_pow2_def)
  have "map_sum id fst (PushUninitialized ?A 40 16) = Inr 4112" by code_simp
  then have push: "PushUninitialized ?A 40 16 = Inr (4112, snd (projr (PushUninitialized ?A 40 16)))"
    by (rule sum_fst_projr)
  have f: "push_remaining ?A 16 < 40" "push_next ?A = 0" "push_offset 16 = 16"
    "Fresh (BackingAllocator ?A) = [4096, 8192, 12288]" "Allocs (BackingAllocator ?A) = []"
    "BlockSize ?A = 64" "BlockAlignment ?A = 16" "Block (Mark ?A) = 0"
    by code_simp+
  show ?thesis
    using PushUninitialized_new_block[OF inv _ _ _ push] f by auto
qed

text \<open>
  Outside that range the comparison is on the \<open>intptr_t\<close>: a size of \<open>2 ^ 64 - 1\<close> is
  \<open>-1\<close> there and never exceeds the space left, so the push returns the aligned mark and
  asks for no block.
\<close>

lemma PushUninitialized_size_above_intptr:
  "to_intptr 18446744073709551615 = - 1 \<and>
   map_sum id fst (PushUninitialized example_arena1 18446744073709551615 1) = Inr 4120 \<and>
   Allocs (BackingAllocator (snd (projr (PushUninitialized example_arena1 18446744073709551615 1))))
     = Allocs (BackingAllocator example_arena1)"
  by code_simp

section \<open>The allocator interface\<close>








section \<open>Well-formed arenas are what the operations produce\<close>

lemma Init_inv:
  assumes "Init this backing initial_block bsz ba = Inr a"
    and "is_pow2 ba" "0 \<le> bsz" "bsz < 2 ^ 32"
    and "distinct (Fresh backing)" "initial_block \<notin> set (Fresh backing)"
  shows "arena_inv a (if initial_block = 0 then [] else [initial_block])"
  using assms
  by (auto simp: Init_def arena_inv_def Let_def split: if_splits)

lemma SetMark_inv:
  assumes "arena_inv a bs" "Block m = 0 \<or> Block m \<in> set bs"
  shows "arena_inv (SetMark a m) bs"
proof (cases bs)
  case Nil
  with assms show ?thesis by (auto simp: arena_inv_def SetMark_def)
next
  case (Cons x xs)
  with assms show ?thesis by (auto simp: arena_inv_def SetMark_def)
qed

lemma Push_inv:
  assumes inv: "arena_inv a bs" and v: "valid_request (sz, al)"
    and push: "PushUninitialized a sz al = Inr (p, a')"
  shows "\<exists>bs'. arena_inv a' bs'"
proof (cases "Block (Mark a) = 0")
  case False
  with inv have "Block (Mark a) \<in> set bs" by (auto simp: arena_inv_def split: if_splits)
  then obtain pre post where "bs = pre @ Block (Mark a) # post" by (auto dest: split_list)
  with inv False have "arena_at a pre post" by (simp add: arena_at_def)
  from push_step[OF this push v] show ?thesis by (auto simp: arena_at_def)
next
  case True
  have bs: "bs = []"
  proof (rule ccontr)
    assume "bs \<noteq> []"
    with inv True have "0 \<in> set bs" by (auto simp: arena_inv_def)
    moreover from inv have "0 \<notin> set bs" using chain_nonzero by (auto simp: arena_inv_def)
    ultimately show False by simp
  qed
  note vd = valid_requestD[OF v]
  note pb = valid_request_bounds[OF v]
  have n: "push_next a = 0" using True by (simp add: push_next_def)
  from push_cases[OF push pb(1,2,3)] n consider
    (fit) "a' = a\<lparr>Mark := \<lparr>Block = Block (Mark a), Ptr = p + sz\<rparr>\<rparr>"
  | (alloc) nb rest where "Fresh (BackingAllocator a) = nb # rest" "nb \<noteq> 0"
      "nb AND (BlockAlignment a - 1) = 0" "a' = push_alloc a sz al nb"
    by auto
  then show ?thesis
  proof cases
    case fit
    with inv show ?thesis by (auto simp: arena_inv_def intro!: exI[of _ bs])
  next
    case alloc
    from inv bs have "arena_inv a []" by simp
    from push_first_alloc[OF this alloc(1,2,3)] vd alloc(4) show ?thesis
      by (auto simp: arena_at_def)
  qed
qed

section \<open>The checkpoint law and the new block size, as stated\<close>


text \<open>
  C8 as stated fails where the requested alignment exceeds the header size: with block
  size 64 and block alignment 64, a push of 100 bytes aligned to 64 on an arena without
  a block allocates 164 bytes, which is 64 (the header size aligned up to 64) plus 100,
  and not \<open>max (64, 16 + 100) = 116\<close>.
\<close>

theorem PushUninitialized_new_block_size_aligned_offset:
  "map_sum id fst (PushUninitialized (fresh_arena [4096] 64 64) 100 64) = Inr 4160 \<and>
   Allocs (BackingAllocator (snd (projr (PushUninitialized (fresh_arena [4096] 64 64) 100 64))))
     = [(4096, 164, 64)] \<and>
   max 64 (sizeof_DS_StackBlockHeader + 100) = 116"
  by code_simp

section \<open>Tables: arithmetic of probe sequences and the invariant under Add and Resize\<close>

lemma msk_eq: "j \<le> 30 \<Longrightarrow> (word_of_int (2 ^ j) :: u32) - 1 = mask j"
  by (simp add: mask_eq_exp_minus_1)

lemma unat_and_mask_mod: "unat ((w :: u32) AND mask j) = unat w mod 2 ^ j"
proof -
  have "w AND mask j = take_bit j w" by (simp only: take_bit_eq_mask)
  then have "unat (w AND mask j) = take_bit j (unat w)" by (simp only: unsigned_take_bit_eq)
  also have "\<dots> = unat w mod 2 ^ j" by (rule take_bit_eq_mod)
  finally show ?thesis .
qed

lemma unat_step_mask:
  assumes "j \<le> 30"
  shows "unat (((i :: u32) + 1) AND mask j) = (unat i + 1) mod 2 ^ j"
proof -
  have "unat (i + 1) = (unat i + 1) mod 2 ^ 32"
    by (simp add: unat_word_ariths)
  moreover have "(2::nat) ^ j dvd 2 ^ 32" using assms by (intro le_imp_power_dvd) simp
  ultimately show ?thesis
    by (simp only: unat_and_mask_mod mod_mod_cancel)
qed

text \<open>arithmetic of positions\<close>

lemma pos_inj_le:
  assumes "d \<le> d'" "d' < n" "(a + d) mod n = (a + d') mod (n::nat)"
  shows "d = d'"
proof -
  define x where "x = (a + d) mod n"
  define k where "k = d' - d"
  have n: "0 < n" using assms(2) by simp
  have x: "x < n" unfolding x_def using n by simp
  have k: "k < n" "d' = d + k" using assms(1,2) by (auto simp: k_def)
  have "(a + d') mod n = (x + k) mod n"
    unfolding x_def k(2) by (simp add: mod_add_left_eq add.assoc)
  with assms(3) have "(x + k) mod n = x" by (simp add: x_def)
  then have "k = 0" using x k(1) by (auto simp: mod_if split: if_splits)
  with k show ?thesis by simp
qed

lemma pos_inj:
  assumes "d < n" "d' < n" "(a + d) mod n = (a + d') mod (n::nat)"
  shows "d = d'"
proof (cases "d \<le> d'")
  case True
  then show ?thesis using assms pos_inj_le by blast
next
  case False
  then have "d' \<le> d" by simp
  from pos_inj_le[OF this assms(1) assms(3)[symmetric]] show ?thesis by simp
qed

lemma pos_exists:
  assumes "a < n" "b < (n::nat)"
  shows "\<exists>d<n. (a + d) mod n = b"
proof (cases "a \<le> b")
  case True
  then show ?thesis using assms by (intro exI[of _ "b - a"]) auto
next
  case False
  then have "(a + (b + n - a)) mod n = b" using assms by simp
  moreover have "b + n - a < n" using False assms by simp
  ultimately show ?thesis by blast
qed

lemma pos_step: "((a + d) mod n + 1) mod n = (a + Suc d) mod (n::nat)"
  by (simp add: mod_Suc_eq)

lemma reachesI:
  "d < length xs \<Longrightarrow> (a + d) mod length xs = slot \<Longrightarrow>
   (\<And>e. e < d \<Longrightarrow> xs ! ((a + e) mod length xs) \<noteq> 0) \<Longrightarrow> reaches xs a slot"
  unfolding reaches_def by auto

lemma reachesD:
  "reaches xs a slot \<Longrightarrow>
   \<exists>d<length xs. (a + d) mod length xs = slot \<and> (\<forall>e<d. xs ! ((a + e) mod length xs) \<noteq> 0)"
  by (auto simp: reaches_def)

lemma reachesE:
  assumes "reaches xs a slot"
  obtains d where "d < length xs" "(a + d) mod length xs = slot"
    "\<And>e. e < d \<Longrightarrow> xs ! ((a + e) mod length xs) \<noteq> 0"
  using reachesD[OF assms] that by blast

lemma probe_chainD:
  "probe_chain hm xs \<Longrightarrow> i < length xs \<Longrightarrow> xs ! i \<noteq> 0 \<Longrightarrow> reaches xs (hm (xs ! i)) i"
  unfolding probe_chain_def by auto

lemma distinct_keysD:
  "distinct_keys xs \<Longrightarrow> i < length xs \<Longrightarrow> j < length xs \<Longrightarrow> xs ! i \<noteq> 0 \<Longrightarrow> xs ! i = xs ! j
   \<Longrightarrow> i = j"
  unfolding distinct_keys_def by auto

text \<open>A probe that meets an empty slot before the key: the key is not in the table.\<close>

lemma probe_absent:
  assumes pc: "probe_chain hm xs" and key: "key \<noteq> 0"
    and path: "\<And>e. e < d \<Longrightarrow> xs ! ((hm key + e) mod length xs) \<noteq> key"
    and stop: "xs ! ((hm key + d) mod length xs) = 0"
  shows "key \<notin> set xs"
proof
  assume "key \<in> set xs"
  then obtain i where i: "i < length xs" "xs ! i = key" by (auto simp: in_set_conv_nth)
  from probe_chainD[OF pc i(1)] i(2) key have "reaches xs (hm key) i" by simp
  from reachesD[OF this] obtain ds where ds: "ds < length xs" "(hm key + ds) mod length xs = i"
    "\<And>e. e < ds \<Longrightarrow> xs ! ((hm key + e) mod length xs) \<noteq> 0"
    by blast
  consider "ds < d" | "ds = d" | "d < ds" by linarith
  then show False
  proof cases
    case 1
    from path[OF 1] ds(2) i(2) show False by simp
  next
    case 2
    with stop ds(2) i(2) key show False by simp
  next
    case 3
    from ds(3)[OF 3] stop show False by simp
  qed
qed

lemma reaches_mono:
  assumes "reaches xs a s" "length ys = length xs"
    "\<And>p. p < length xs \<Longrightarrow> xs ! p \<noteq> 0 \<Longrightarrow> ys ! p \<noteq> 0"
  shows "reaches ys a s"
proof -
  from reachesD[OF assms(1)] obtain d where d: "d < length xs" "(a + d) mod length xs = s"
    "\<And>e. e < d \<Longrightarrow> xs ! ((a + e) mod length xs) \<noteq> 0"
    by blast
  have n: "0 < length xs" using d(1) by (cases xs) auto
  show ?thesis
    apply (rule reachesI[of d])
    using d assms(2,3) n by auto
qed

lemma probe_chain_insert:
  assumes pc: "probe_chain hm xs" and i: "i < length xs" "xs ! i = 0" and key: "key \<noteq> 0"
    and r: "reaches xs (hm key) i"
  shows "probe_chain hm (xs[i := key])"
  unfolding probe_chain_def
proof (intro ballI impI)
  fix s assume s: "s \<in> {..<length (xs[i := key])}" "xs[i := key] ! s \<noteq> 0"
  have mono: "\<And>p. p < length xs \<Longrightarrow> xs ! p \<noteq> 0 \<Longrightarrow> xs[i := key] ! p \<noteq> 0"
    using key i(1) by (simp add: nth_list_update)
  show "reaches (xs[i := key]) (hm (xs[i := key] ! s)) s"
  proof (cases "s = i")
    case True
    then show ?thesis using r i mono
      by (auto intro: reaches_mono)
  next
    case False
    with s have "xs ! s \<noteq> 0" "s < length xs" by auto
    from probe_chainD[OF pc this(2,1)] False show ?thesis
      using mono by (auto intro: reaches_mono)
  qed
qed

lemma count_insert:
  "i < length xs \<Longrightarrow> \<not> P (xs ! i) \<Longrightarrow> P v \<Longrightarrow>
   length (filter P (xs[i := v])) = Suc (length (filter P xs))"
proof (induction xs arbitrary: i)
  case Nil
  then show ?case by simp
next
  case (Cons x xs)
  then show ?case by (cases i) auto
qed

lemma count_remove:
  "i < length xs \<Longrightarrow> P (xs ! i) \<Longrightarrow> \<not> P v \<Longrightarrow>
   Suc (length (filter P (xs[i := v]))) = length (filter P xs)"
proof (induction xs arbitrary: i)
  case Nil
  then show ?case by simp
next
  case (Cons x xs)
  then show ?case by (cases i) auto
qed

lemma distinct_keys_insert:
  assumes "distinct_keys xs" "key \<notin> set xs" "i < length xs"
  shows "distinct_keys (xs[i := key])"
  unfolding distinct_keys_def
proof (intro ballI impI)
  fix a b assume a: "a \<in> {..<length (xs[i := key])}" and b: "b \<in> {..<length (xs[i := key])}"
    and e: "xs[i := key] ! a \<noteq> 0 \<and> xs[i := key] ! a = xs[i := key] ! b"
  show "a = b"
  proof (cases "a = i \<or> b = i")
    case True
    then show ?thesis using a b e assms(2,3)
      by (auto simp: nth_list_update split: if_splits)
  next
    case False
    then show ?thesis using a b e distinct_keysD[OF assms(1), of a b]
      by (auto simp: nth_list_update)
  qed
qed

lemma distinct_keys_remove:
  assumes "distinct_keys xs"
  shows "distinct_keys (xs[i := 0])"
  unfolding distinct_keys_def
proof (intro ballI impI)
  fix a b assume a: "a \<in> {..<length (xs[i := 0])}" and b: "b \<in> {..<length (xs[i := 0])}"
    and e: "xs[i := 0] ! a \<noteq> 0 \<and> xs[i := 0] ! a = xs[i := 0] ! b"
  then show "a = b" using distinct_keysD[OF assms(1), of a b]
    by (cases "a = i"; cases "b = i") (auto simp: nth_list_update)
qed

lemma empty_slot_exists:
  assumes "length (filter (\<lambda>k. k \<noteq> 0) xs) < length xs"
  shows "\<exists>z<length xs. xs ! z = (0::'k::zero)"
proof (rule ccontr)
  assume "\<not> ?thesis"
  then have "\<forall>x\<in>set xs. x \<noteq> 0" by (auto simp: in_set_conv_nth)
  then have "filter (\<lambda>k. k \<noteq> 0) xs = xs" by simp
  with assms show False by simp
qed

lemma shape_geom:
  assumes "table_shape s" "NumSlots s \<noteq> 0"
  shows "\<exists>j. geom s j"
proof -
  from assms have p: "is_pow2 (NumSlots s)" and le: "NumSlots s \<le> 2 ^ 30"
    and len: "int (length (Data s)) = NumSlots s"
    by (auto simp: table_shape_def)
  from is_pow2D[OF p] obtain j :: nat where j: "NumSlots s = 2 ^ j" by blast
  with le have "(2::int) ^ j \<le> 2 ^ 30" by simp
  then have "j \<le> 30" using power_le_imp_le_exp[of "2::int" j 30] by simp
  moreover from len j have "length (Data s) = 2 ^ j"
    by (metis nat_int nat_power_eq numeral_power_eq_nat_cancel_iff of_nat_numeral of_nat_power zero_le_numeral)
  ultimately show ?thesis using j by (auto simp: geom_def)
qed

lemma geom_msk: "geom s j \<Longrightarrow> (word_of_int (NumSlots s) :: u32) - 1 = mask j"
  using msk_eq[of j] by (simp add: geom_def)

lemma geom_home: "geom s j \<Longrightarrow> home h s k = unat (h k) mod 2 ^ j"
  by (simp add: home_def geom_msk unat_and_mask_mod)

lemma geom_home_less: "geom s j \<Longrightarrow> home h s k < length (Data s)"
  using geom_home[of s j h k] by (simp add: geom_def)

text \<open>The probe loop of Add: where it stops.\<close>

lemma Set_Add_loop_pc:
  assumes "Set_Add_loop fuel s (mask j) index key = Some (Inr (b, s'))"
    and "j \<le> 30" "length (Data s) = 2 ^ j"
    and "unat index = (a + d) mod 2 ^ j"
    and "\<forall>e<d. Data s ! ((a + e) mod 2 ^ j) \<noteq> 0 \<and> Data s ! ((a + e) mod 2 ^ j) \<noteq> key"
  shows "\<exists>d'. (\<forall>e<d'. Data s ! ((a + e) mod 2 ^ j) \<noteq> 0 \<and> Data s ! ((a + e) mod 2 ^ j) \<noteq> key) \<and>
      ((Data s ! ((a + d') mod 2 ^ j) = 0 \<and> b \<and> int32_ok (NumElems s + 1) \<and>
          s' = s\<lparr>Data := (Data s)[(a + d') mod 2 ^ j := key], NumElems := NumElems s + 1\<rparr>) \<or>
       (Data s ! ((a + d') mod 2 ^ j) \<noteq> 0 \<and> Data s ! ((a + d') mod 2 ^ j) = key \<and> \<not> b \<and> s' = s))"
  using assms
proof (induction fuel arbitrary: index d)
  case 0
  then show ?case by simp
next
  case (Suc fuel)
  let ?p = "(a + d) mod 2 ^ j"
  have lt: "unat index < length (Data s)" using Suc.prems(3,4) by simp
  show ?case
  proof (cases "Data s ! ?p = 0")
    case True
    with Suc.prems lt show ?thesis
      by (intro exI[of _ d]) (auto split: if_splits)
  next
    case False
    note nz = this
    show ?thesis
    proof (cases "key = Data s ! ?p")
      case True
      with Suc.prems lt nz show ?thesis
        by (intro exI[of _ d]) (auto split: if_splits)
    next
      case False
      with Suc.prems lt nz have rec:
        "Set_Add_loop fuel s (mask j) ((index + 1) AND mask j) key = Some (Inr (b, s'))"
        by (auto split: if_splits)
      have step: "unat ((index + 1) AND mask j) = (a + Suc d) mod 2 ^ j"
        using unat_step_mask[OF Suc.prems(2), of index] Suc.prems(4) by (simp add: mod_Suc_eq)
      have path: "\<forall>e<Suc d. Data s ! ((a + e) mod 2 ^ j) \<noteq> 0 \<and> Data s ! ((a + e) mod 2 ^ j) \<noteq> key"
        using Suc.prems(5) nz False by (auto simp: less_Suc_eq)
      from Suc.IH[OF rec Suc.prems(2,3) step path] show ?thesis .
    qed
  qed
qed

lemma home_cong: "NumSlots s' = NumSlots s \<Longrightarrow> home h s' = home h s"
  by (rule ext) (simp add: home_def)

lemma keys_update_insert:
  assumes "p < length xs" "xs ! p = 0" "key \<noteq> (0::'k::zero)"
  shows "set (xs[p := key]) - {0} = insert key (set xs - {0})"
proof -
  have "\<And>x. x \<in> set (xs[p := key]) \<longleftrightarrow> x = key \<or> (\<exists>i<length xs. i \<noteq> p \<and> xs ! i = x)"
    using assms(1) by (auto simp: in_set_conv_nth nth_list_update)
  moreover have "\<And>x. x \<noteq> 0 \<Longrightarrow> (\<exists>i<length xs. i \<noteq> p \<and> xs ! i = x) \<longleftrightarrow> x \<in> set xs"
    using assms(2) by (auto simp: in_set_conv_nth)
  ultimately show ?thesis using assms(3) by auto
qed

lemma keys_update_remove:
  assumes "p < length xs" "distinct_keys xs" "xs ! p \<noteq> 0"
  shows "set (xs[p := 0]) - {0} = (set xs - {0}) - {xs ! p}"
proof -
  have a: "\<And>x. x \<in> set (xs[p := 0]) \<longleftrightarrow> x = 0 \<or> (\<exists>i<length xs. i \<noteq> p \<and> xs ! i = x)"
    using assms(1) by (auto simp: in_set_conv_nth nth_list_update)
  have b: "\<And>i. i < length xs \<Longrightarrow> i \<noteq> p \<Longrightarrow> xs ! i \<noteq> 0 \<Longrightarrow> xs ! i \<noteq> xs ! p"
    using distinct_keysD[OF assms(2)] assms(1) by metis
  show ?thesis
  proof (intro set_eqI iffI)
    fix x assume "x \<in> set (xs[p := 0]) - {0}"
    with a obtain i where "i < length xs" "i \<noteq> p" "xs ! i = x" "x \<noteq> 0" by auto
    with b show "x \<in> set xs - {0} - {xs ! p}" by auto
  next
    fix x assume x: "x \<in> set xs - {0} - {xs ! p}"
    then obtain i where "i < length xs" "xs ! i = x" by (auto simp: in_set_conv_nth)
    with x have "i \<noteq> p" by auto
    with \<open>i < length xs\<close> \<open>xs ! i = x\<close> a x show "x \<in> set (xs[p := 0]) - {0}" by auto
  qed
qed

lemma path_bound:
  assumes "0 < (n::nat)" "\<forall>e<d. xs ! ((a + e) mod n) \<noteq> v" "xs ! ((a + d) mod n) = v"
  shows "d < n"
proof (rule ccontr)
  assume "\<not> d < n"
  then have "d - n < d" "(a + (d - n)) mod n = (a + d) mod n"
    using assms(1) by (auto simp: le_mod_geq)
  with assms(2,3) show False by metis
qed

lemma Set_Add_loop_inv:
  assumes shape: "table_shape s" and pc: "probe_chain (home h s) (Data s)" and g: "geom s j"
    and key: "key \<noteq> 0" and load: "100 * (NumElems s + 1) \<le> 70 * NumSlots s"
    and guard: "70 * NumSlots s \<le> 2147483647"
    and run: "Set_Add_loop fuel s (mask j) (h key AND mask j) key = Some (Inr (b, s'))"
  shows "set_inv h s' \<and> keys_of s' = insert key (keys_of s) \<and> (b \<longleftrightarrow> key \<notin> keys_of s) \<and>
    NumSlots s' = NumSlots s"
proof -
  let ?n = "2 ^ j :: nat"
  let ?a = "home h s key"
  from g have j: "j \<le> 30" and len: "length (Data s) = ?n" and ns: "NumSlots s = 2 ^ j"
    by (auto simp: geom_def)
  have a: "?a = unat (h key) mod ?n" by (rule geom_home[OF g])
  have idx: "unat (h key AND mask j) = (?a + 0) mod ?n"
    by (simp add: unat_and_mask_mod a)
  from Set_Add_loop_pc[OF run j len idx] obtain d where
    path: "\<forall>e<d. Data s ! ((?a + e) mod ?n) \<noteq> 0 \<and> Data s ! ((?a + e) mod ?n) \<noteq> key"
    and res: "(Data s ! ((?a + d) mod ?n) = 0 \<and> b \<and> int32_ok (NumElems s + 1) \<and>
          s' = s\<lparr>Data := (Data s)[(?a + d) mod ?n := key], NumElems := NumElems s + 1\<rparr>) \<or>
       (Data s ! ((?a + d) mod ?n) \<noteq> 0 \<and> Data s ! ((?a + d) mod ?n) = key \<and> \<not> b \<and> s' = s)"
    by auto
  let ?p = "(?a + d) mod ?n"
  have p: "?p < length (Data s)" using len by simp
  from res show ?thesis
  proof (elim disjE conjE)
    assume f: "Data s ! ?p = key" "\<not> b" "s' = s"
    then have "key \<in> keys_of s" using p key by (auto simp: keys_of_def) (metis nth_mem)
    moreover have "set_inv h s" using shape pc load by (simp add: set_inv_def)
    ultimately show ?thesis using f by auto
  next
    assume f: "Data s ! ?p = 0" "b"
      "s' = s\<lparr>Data := (Data s)[?p := key], NumElems := NumElems s + 1\<rparr>"
    have absent: "key \<notin> set (Data s)"
      by (rule probe_absent[OF pc key, of d]) (use path f(1) len in auto)
    have d: "d < ?n"
      by (rule path_bound[of ?n d "Data s" ?a 0]) (use path f(1) in auto)
    have r: "reaches (Data s) ?a ?p"
      by (rule reachesI[of d]) (use d len path in auto)
    have pc': "probe_chain (home h s') (Data s')"
      using probe_chain_insert[OF pc p f(1) key r] home_cong[of s' s h] f(3) by simp
    have cnt: "length (filter (\<lambda>k. k \<noteq> 0) (Data s')) = Suc (length (filter (\<lambda>k. k \<noteq> 0) (Data s)))"
      unfolding f(3) using count_insert[OF p, of "\<lambda>k. k \<noteq> 0" key] f(1) key by simp
    have dk: "distinct_keys (Data s')"
      unfolding f(3) using distinct_keys_insert[OF _ absent p] shape by (simp add: table_shape_def)
    have sh: "table_shape s'"
      using shape cnt dk guard unfolding table_shape_def f(3) by simp
    have ks: "keys_of s' = insert key (keys_of s)"
      unfolding keys_of_def f(3) using keys_update_insert[OF p f(1) key] by simp
    show ?thesis
      using sh pc' ks absent f load by (auto simp: set_inv_def keys_of_def)
  qed
qed

lemma distinct_keys_Cons:
  assumes "distinct_keys (x # xs)"
  shows "distinct_keys xs" and "x \<noteq> 0 \<Longrightarrow> x \<notin> set xs"
proof -
  show "distinct_keys xs"
    unfolding distinct_keys_def
  proof (intro ballI impI)
    fix i j assume "i \<in> {..<length xs}" "j \<in> {..<length xs}" "xs ! i \<noteq> 0 \<and> xs ! i = xs ! j"
    then show "i = j" using distinct_keysD[OF assms, of "Suc i" "Suc j"] by auto
  qed
  show "x \<notin> set xs" if "x \<noteq> 0"
  proof
    assume "x \<in> set xs"
    then obtain j where "j < length xs" "xs ! j = x" by (auto simp: in_set_conv_nth)
    then show False using distinct_keysD[OF assms, of 0 "Suc j"] that by auto
  qed
qed

lemma distinct_keys_filter: "distinct_keys xs \<Longrightarrow> distinct (filter (\<lambda>k. k \<noteq> 0) xs)"
proof (induction xs)
  case Nil
  then show ?case by simp
next
  case (Cons x xs)
  from distinct_keys_Cons[OF Cons.prems] Cons.IH show ?case by auto
qed

lemma shape_card: "table_shape s \<Longrightarrow> NumElems s = int (card (keys_of s))"
proof -
  assume sh: "table_shape s"
  then have "distinct (filter (\<lambda>k. k \<noteq> 0) (Data s))"
    by (simp add: table_shape_def distinct_keys_filter)
  then have "length (filter (\<lambda>k. k \<noteq> 0) (Data s)) = card (set (filter (\<lambda>k. k \<noteq> 0) (Data s)))"
    by (metis distinct_card)
  moreover have "set (filter (\<lambda>k. k \<noteq> 0) (Data s)) = keys_of s"
    by (auto simp: keys_of_def)
  ultimately show ?thesis using sh by (simp add: table_shape_def)
qed

lemma keys_empty_iff: "table_shape s \<Longrightarrow> keys_of s = {} \<longleftrightarrow> NumElems s = 0"
  using shape_card[of s] by (auto simp: keys_of_def)

lemma Set_Add_step:
  assumes inv: "set_inv h s"
    and run: "Set_Add (Suc fuel) h s key = Some (Inr (b, s'))"
    and q8: "\<And>s1. NumSlots s = 0 \<Longrightarrow> key \<noteq> 0 \<Longrightarrow> Set_Resize fuel h s 8 = Some (Inr s1)
        \<Longrightarrow> resize_post h s 8 s1"
    and q2: "\<And>s1. NumSlots s \<noteq> 0 \<Longrightarrow> key \<noteq> 0 \<Longrightarrow> int32_ok (NumSlots s * 2) \<Longrightarrow>
        70 * NumSlots s < 100 * (NumElems s + 1) \<Longrightarrow>
        Set_Resize fuel h s (NumSlots s * 2) = Some (Inr s1)
        \<Longrightarrow> resize_post h s (NumSlots s * 2) s1"
  shows "add_post h s key b s'"
proof -
  from inv have sh: "table_shape s" and ld: "100 * NumElems s \<le> 70 * NumSlots s"
    and pc: "probe_chain (home h s) (Data s)"
    by (auto simp: set_inv_def)
  from sh have e0: "0 \<le> NumElems s" and n0: "0 \<le> NumSlots s" by (auto simp: table_shape_def)
  from run have key: "key \<noteq> 0" and ok: "int32_ok (70 * NumSlots s)"
    by (auto split: if_splits)
  let ?grow = "70 * NumSlots s < 100 * (NumElems s + 1)"
  let ?n = "if NumSlots s = 0 then 8 else NumSlots s * 2"
  from run obtain s1 where
    s1: "(\<not> ?grow \<and> s1 = s) \<or>
         (?grow \<and> (NumSlots s \<noteq> 0 \<longrightarrow> int32_ok (NumSlots s * 2)) \<and>
          Set_Resize fuel h s ?n = Some (Inr s1))"
    and loop: "Set_Add_loop fuel s1 ((word_of_int (NumSlots s1) :: u32) - 1)
        (h key AND ((word_of_int (NumSlots s1) :: u32) - 1)) key = Some (Inr (b, s'))"
    by (auto simp: Let_def split: if_splits option.splits sum.splits)
  have facts: "set_inv h s1 \<and> keys_of s1 = keys_of s \<and> NumSlots s \<le> NumSlots s1 \<and>
      100 * (NumElems s1 + 1) \<le> 70 * NumSlots s1 \<and> 70 * NumSlots s1 \<le> 2147483647"
    using s1
  proof (elim disjE conjE)
    assume "\<not> ?grow" "s1 = s"
    then show ?thesis using inv ok by (simp add: int32_ok_def)
  next
    assume g: "?grow" and r: "Set_Resize fuel h s ?n = Some (Inr s1)"
      and o: "NumSlots s \<noteq> 0 \<longrightarrow> int32_ok (NumSlots s * 2)"
    have post: "resize_post h s ?n s1"
      using q8[of s1] q2[of s1] r g o key by (cases "NumSlots s = 0") auto
    then have i1: "set_inv h s1" and k1: "keys_of s1 = keys_of s" and n1: "?n \<le> NumSlots s1"
      and ex: "keys_of s = {} \<Longrightarrow> NumSlots s1 = ?n"
      by (auto simp: resize_post_def)
    from i1 have sh1: "table_shape s1" by (simp add: set_inv_def)
    have e1: "NumElems s1 = NumElems s" using shape_card[OF sh] shape_card[OF sh1] k1 by simp
    have ld1: "100 * (NumElems s1 + 1) \<le> 70 * NumSlots s1"
    proof -
      consider "NumSlots s = 0" | "NumSlots s = 1" | "2 \<le> NumSlots s" using n0 by linarith
      then show ?thesis
        using e1 ld n1 e0 by cases (auto, presburger)
    qed
    have gd: "70 * NumSlots s1 \<le> 2147483647"
    proof (cases "NumElems s1 = 0")
      case True
      with e1 keys_empty_iff[OF sh] have "keys_of s = {}" by simp
      from ex[OF this] g True e1 n0 show ?thesis by (cases "NumSlots s = 0") auto
    next
      case False
      with sh1 show ?thesis by (auto simp: table_shape_def)
    qed
    show ?thesis using i1 k1 n1 ld1 gd n0 by (cases "NumSlots s = 0") auto
  qed
  then have i1: "set_inv h s1" and k1: "keys_of s1 = keys_of s" and n1: "NumSlots s \<le> NumSlots s1"
    and ld1: "100 * (NumElems s1 + 1) \<le> 70 * NumSlots s1" and gd: "70 * NumSlots s1 \<le> 2147483647"
    by auto
  from i1 have sh1: "table_shape s1" and pc1: "probe_chain (home h s1) (Data s1)"
    by (auto simp: set_inv_def)
  from sh1 have "0 \<le> NumElems s1" by (simp add: table_shape_def)
  with ld1 have "NumSlots s1 \<noteq> 0" by auto
  from shape_geom[OF sh1 this] obtain j where g: "geom s1 j" by blast
  from loop have loop': "Set_Add_loop fuel s1 (mask j) (h key AND mask j) key = Some (Inr (b, s'))"
    by (simp add: geom_msk[OF g])
  from Set_Add_loop_inv[OF sh1 pc1 g key ld1 gd loop'] k1 n1 key
  show ?thesis by (auto simp: add_post_def)
qed

lemma empty_table_inv:
  assumes "Allocator s" "0 \<le> n" "n = 0 \<or> is_pow2 n" "int32_ok n"
  shows "set_inv h (s\<lparr>NumSlots := n, NumElems := 0, Data := replicate (nat n) (0::'k::zero)\<rparr>)"
proof -
  have le: "n \<le> 2 ^ 30"
  proof (cases "n = 0")
    case False
    with assms(3) obtain k :: nat where k: "n = 2 ^ k" using is_pow2D by blast
    with assms(4) have "(2::int) ^ k < 2 ^ 31" by (simp add: int32_ok_def)
    then have "k < 31" using power_less_imp_less_exp[of "2::int" k 31] by simp
    then have "(2::int) ^ k \<le> 2 ^ 30" by (intro power_increasing) auto
    with k show ?thesis by simp
  qed simp
  have f: "filter (\<lambda>k. k \<noteq> 0) (replicate (nat n) (0::'k)) = []" by simp
  show ?thesis
    using assms le
    by (auto simp: set_inv_def table_shape_def probe_chain_def distinct_keys_def)
qed

lemma keys_of_empty:
  "keys_of (s\<lparr>NumSlots := n, NumElems := 0, Data := replicate m 0\<rparr>) = {}"
  by (auto simp: keys_of_def)

lemma Set_Resize_Some:
  assumes "Set_Resize fuel h s n = Some (Inr s')"
  shows "int32_ok (n - 1) \<and> n AND (n - 1) = 0 \<and> NumElems s \<le> n \<and>
    (if 0 < n
     then \<not> int (length (Data s)) < NumSlots s \<and>
          Set_Resize_loop fuel h (s\<lparr>NumSlots := n, NumElems := 0, Data := replicate (nat n) 0\<rparr>)
            (take (nat (NumSlots s)) (Data s)) = Some (Inr s')
     else s' = s\<lparr>NumSlots := n, NumElems := 0, Data := replicate (nat n) 0\<rparr>)"
proof -
  have a: "int32_ok (n - 1)" using assms by (simp split: if_splits)
  have b: "n AND (n - 1) = 0" using assms a by (simp split: if_splits)
  have c: "NumElems s \<le> n" using assms a b by (simp split: if_splits)
  show ?thesis using assms a b c by (simp add: Let_def split: if_splits)
qed

lemma Set_Resize_step:
  assumes sh: "table_shape s" and n32: "int32_ok n"
    and run: "Set_Resize fuel h s n = Some (Inr s')"
    and r: "\<And>s1 s'. s1 = s\<lparr>NumSlots := n, NumElems := 0, Data := replicate (nat n) 0\<rparr> \<Longrightarrow> 0 < n
        \<Longrightarrow> set_inv h s1 \<Longrightarrow> Set_Resize_loop fuel h s1 (Data s) = Some (Inr s') \<Longrightarrow>
        loop_post h s1 (Data s) s'"
  shows "resize_post h s n s'"
proof -
  let ?s1 = "s\<lparr>NumSlots := n, NumElems := 0, Data := replicate (nat n) 0\<rparr>"
  from sh have al: "Allocator s" and len: "int (length (Data s)) = NumSlots s"
    and e0: "0 \<le> NumElems s"
    by (auto simp: table_shape_def)
  note rs = Set_Resize_Some[OF run]
  from rs have a: "n AND (n - 1) = 0" "NumElems s \<le> n"
    by simp_all
  with e0 have n0: "0 \<le> n" by simp
  have p: "n = 0 \<or> is_pow2 n" using a(1) n0 by (auto simp: is_pow2_def)
  have inv1: "set_inv h ?s1" by (rule empty_table_inv[OF al n0 p n32])
  show ?thesis
  proof (cases "0 < n")
    case True
    have tk: "take (nat (NumSlots s)) (Data s) = Data s" using len by simp
    from rs True have l: "Set_Resize_loop fuel h ?s1 (Data s) = Some (Inr s')"
      by (simp add: tk)
    from r[OF refl True inv1 l] have lp: "loop_post h ?s1 (Data s) s'" .
    then have i': "set_inv h s'"
      and k': "keys_of s' = keys_of ?s1 \<union> (set (Data s) - {0})"
      and n': "NumSlots ?s1 \<le> NumSlots s'"
      and e': "set (Data s) \<subseteq> {0} \<longrightarrow> s' = ?s1"
      by (simp_all add: loop_post_def)
    have k1: "keys_of ?s1 = {}" by (rule keys_of_empty)
    have ks: "keys_of s' = keys_of s" unfolding k' k1 by (simp add: keys_of_def)
    have nn: "n \<le> NumSlots s'" using n' by simp
    have ex: "keys_of s = {} \<longrightarrow> NumSlots s' = n"
    proof
      assume "keys_of s = {}"
      then have "set (Data s) \<subseteq> {0}" unfolding keys_of_def by blast
      with e' have "s' = ?s1" by blast
      then show "NumSlots s' = n" by simp
    qed
    show ?thesis unfolding resize_post_def using i' ks nn ex by blast
  next
    case False
    with n0 have z: "n = 0" by simp
    with rs have s': "s' = ?s1" by simp
    from a(2) z e0 have "NumElems s = 0" by simp
    with keys_empty_iff[OF sh] have ke: "keys_of s = {}" by simp
    have k1: "keys_of ?s1 = {}" by (rule keys_of_empty)
    show ?thesis unfolding resize_post_def s' using inv1 ke k1 z by simp
  qed
qed

lemma Set_Resize_loop_step:
  assumes inv: "set_inv h s"
    and run: "Set_Resize_loop fuel h s (elem # rest) = Some (Inr s')"
    and p: "\<And>b s1. elem \<noteq> 0 \<Longrightarrow> Set_Add fuel h s elem = Some (Inr (b, s1)) \<Longrightarrow> add_post h s elem b s1"
    and r1: "\<And>b s1 s'. elem \<noteq> 0 \<Longrightarrow> Set_Add fuel h s elem = Some (Inr (b, s1)) \<Longrightarrow> set_inv h s1 \<Longrightarrow>
        Set_Resize_loop fuel h s1 rest = Some (Inr s') \<Longrightarrow> loop_post h s1 rest s'"
    and r0: "\<And>s'. elem = 0 \<Longrightarrow> Set_Resize_loop fuel h s rest = Some (Inr s') \<Longrightarrow> loop_post h s rest s'"
  shows "loop_post h s (elem # rest) s'"
proof (cases "elem = 0")
  case True
  with run have "Set_Resize_loop fuel h s rest = Some (Inr s')" by simp
  from r0[OF True this] True show ?thesis by (auto simp: loop_post_def)
next
  case False
  with run obtain b s1 where a: "Set_Add fuel h s elem = Some (Inr (b, s1))"
    and l: "Set_Resize_loop fuel h s1 rest = Some (Inr s')"
    by (auto split: option.splits sum.splits)
  from p[OF False a] have ap: "add_post h s elem b s1" .
  then have i1: "set_inv h s1" by (simp add: add_post_def)
  from r1[OF False a i1 l] have "loop_post h s1 rest s'" .
  with ap False show ?thesis by (auto simp: loop_post_def add_post_def)
qed

lemma Set_pc:
  shows "\<And>b s'. set_inv h s \<Longrightarrow> Set_Add fuel h s key = Some (Inr (b, s')) \<Longrightarrow> add_post h s key b s'"
    and "\<And>s'. table_shape s \<Longrightarrow> int32_ok n \<Longrightarrow> Set_Resize fuel h s n = Some (Inr s')
          \<Longrightarrow> resize_post h s n s'"
    and "\<And>s'. set_inv h s \<Longrightarrow> Set_Resize_loop fuel h s rest = Some (Inr s') \<Longrightarrow> loop_post h s rest s'"
proof (induction fuel h s key and fuel h s n and fuel h s rest
    rule: Set_Add_Set_Resize_Set_Resize_loop.induct)
  case (1 h s key)
  then show ?case by simp
next
  case (2 fuel h s key)
  from 2(3) have sh: "table_shape s" by (simp add: set_inv_def)
  from 2(4) have pre: "Allocator s" "key \<noteq> 0" "int32_ok (100 * (NumElems s + 1))"
    "int32_ok (70 * NumSlots s)"
    by (auto split: if_splits)
  show ?case
  proof (rule Set_Add_step[OF 2(3) 2(4)])
    fix s1 assume a: "NumSlots s = 0" "Set_Resize fuel h s 8 = Some (Inr s1)"
    from sh have "0 \<le> NumElems s" by (simp add: table_shape_def)
    with a(1) have g: "70 * NumSlots s < 100 * (NumElems s + 1)" by simp
    show "resize_post h s 8 s1"
      by (rule 2(1)[OF _ _ _ g a(1) sh _ a(2)]) (use pre in \<open>auto simp: int32_ok_def\<close>)
  next
    fix s1 assume a: "NumSlots s \<noteq> 0" "int32_ok (NumSlots s * 2)"
      "70 * NumSlots s < 100 * (NumElems s + 1)"
      "Set_Resize fuel h s (NumSlots s * 2) = Some (Inr s1)"
    show "resize_post h s (NumSlots s * 2) s1"
      by (rule 2(2)[OF _ _ _ a(3) a(1) _ sh a(2) a(4)]) (use pre a(2) in auto)
  qed
next
  case (3 fuel h s num_slots)
  show ?case
  proof (rule Set_Resize_step[OF 3(2) 3(3) 3(4)])
    fix s1 s'' assume a: "s1 = s\<lparr>NumSlots := num_slots, NumElems := 0, Data := replicate (nat num_slots) 0\<rparr>"
      "0 < num_slots" "set_inv h s1" "Set_Resize_loop fuel h s1 (Data s) = Some (Inr s'')"
    from 3(2) have len: "int (length (Data s)) = NumSlots s" by (simp add: table_shape_def)
    then have tk: "take (nat (NumSlots s)) (Data s) = Data s" by simp
    from Set_Resize_Some[OF 3(4)] have ch: "int32_ok (num_slots - 1)"
      "num_slots AND (num_slots - 1) = 0" "NumElems s \<le> num_slots"
      by simp_all
    have "loop_post h s1 (take (nat (NumSlots s)) (Data s)) s''"
      apply (rule 3(1)[OF _ _ _ refl refl a(1) a(2) _ a(3)])
      using ch len a(4) tk by auto
    then show "loop_post h s1 (Data s) s''" by (simp add: tk)
  qed
next
  case (4 fuel h s)
  then show ?case by (simp add: loop_post_def)
next
  case (5 fuel h s elem rest)
  show ?case
  proof (rule Set_Resize_loop_step[OF 5(4) 5(5)])
    fix b s1 assume "elem \<noteq> 0" "Set_Add fuel h s elem = Some (Inr (b, s1))"
    then show "add_post h s elem b s1" using 5(1) 5(4) by blast
  next
    fix b s1 s'' assume a: "elem \<noteq> 0" "Set_Add fuel h s elem = Some (Inr (b, s1))" "set_inv h s1"
      "Set_Resize_loop fuel h s1 rest = Some (Inr s'')"
    show "loop_post h s1 rest s''"
      by (rule 5(2)[OF a(1) a(2) refl refl a(3) a(4)])
  next
    fix s'' assume "elem = 0" "Set_Resize_loop fuel h s rest = Some (Inr s'')"
    then show "loop_post h s rest s''" using 5(3) 5(4) by blast
  qed
qed

section \<open>Has finds exactly the keys of the table\<close>

lemma Set_Has_loop_pc:
  assumes "Set_Has_loop fuel s (mask j) index key = Some (Inr b)"
    and "j \<le> 30" "length (Data s) = 2 ^ j"
    and "unat index = (a + d) mod 2 ^ j"
    and "\<forall>e<d. Data s ! ((a + e) mod 2 ^ j) \<noteq> 0 \<and> Data s ! ((a + e) mod 2 ^ j) \<noteq> key"
  shows "\<exists>d'. (\<forall>e<d'. Data s ! ((a + e) mod 2 ^ j) \<noteq> 0 \<and> Data s ! ((a + e) mod 2 ^ j) \<noteq> key) \<and>
      ((Data s ! ((a + d') mod 2 ^ j) = 0 \<and> \<not> b) \<or>
       (Data s ! ((a + d') mod 2 ^ j) \<noteq> 0 \<and> Data s ! ((a + d') mod 2 ^ j) = key \<and> b))"
  using assms
proof (induction fuel arbitrary: index d)
  case 0
  then show ?case by simp
next
  case (Suc fuel)
  let ?p = "(a + d) mod 2 ^ j"
  have lt: "unat index < length (Data s)" using Suc.prems(3,4) by simp
  show ?case
  proof (cases "Data s ! ?p = 0")
    case True
    with Suc.prems lt show ?thesis
      by (intro exI[of _ d]) (auto split: if_splits)
  next
    case False
    note nz = this
    show ?thesis
    proof (cases "key = Data s ! ?p")
      case True
      with Suc.prems lt nz show ?thesis
        by (intro exI[of _ d]) (auto split: if_splits)
    next
      case False
      with Suc.prems lt nz have rec:
        "Set_Has_loop fuel s (mask j) ((index + 1) AND mask j) key = Some (Inr b)"
        by (auto split: if_splits)
      have step: "unat ((index + 1) AND mask j) = (a + Suc d) mod 2 ^ j"
        using unat_step_mask[OF Suc.prems(2), of index] Suc.prems(4) by (simp add: mod_Suc_eq)
      have path: "\<forall>e<Suc d. Data s ! ((a + e) mod 2 ^ j) \<noteq> 0 \<and> Data s ! ((a + e) mod 2 ^ j) \<noteq> key"
        using Suc.prems(5) nz False by (auto simp: less_Suc_eq)
      from Suc.IH[OF rec Suc.prems(2,3) step path] show ?thesis .
    qed
  qed
qed

text \<open>A probe returns when an empty slot lies ahead and the fuel reaches it.\<close>

lemma ahead_step:
  assumes "j \<le> 30" "(unat (index :: u32) + Suc k) mod 2 ^ j = z"
  shows "(unat ((index + 1) AND mask j) + k) mod 2 ^ j = z"
    and "unat ((index + 1) AND mask j) < 2 ^ j"
proof -
  have "(unat ((index + 1) AND mask j) + k) mod 2 ^ j = ((unat index + 1) mod 2 ^ j + k) mod 2 ^ j"
    by (simp only: unat_step_mask[OF assms(1)])
  also have "\<dots> = (unat index + 1 + k) mod 2 ^ j" by (simp only: mod_add_left_eq)
  finally show "(unat ((index + 1) AND mask j) + k) mod 2 ^ j = z" using assms(2) by simp
  show "unat ((index + 1) AND mask j) < 2 ^ j"
    by (simp only: unat_step_mask[OF assms(1)]) simp
qed

lemma Set_Has_loop_total:
  assumes "j \<le> 30" "length (Data s) = 2 ^ j" "Data s ! z = 0"
    and "unat index < 2 ^ j" "(unat index + k) mod 2 ^ j = z" "k < fuel"
  shows "\<exists>b. Set_Has_loop fuel s (mask j) index key = Some (Inr b)"
  using assms(4-)
proof (induction k arbitrary: index fuel)
  case 0
  then obtain f where f: "fuel = Suc f" by (cases fuel) auto
  from 0 have "unat index = z" by simp
  with assms(2,3) 0(1) show ?case unfolding f by auto
next
  case (Suc k)
  then obtain f where f: "fuel = Suc f" by (cases fuel) auto
  from Suc.prems(3) f have kf: "k < f" by simp
  from Suc.IH[OF ahead_step(2)[OF assms(1) Suc.prems(2)] ahead_step(1)[OF assms(1) Suc.prems(2)] kf]
  obtain b where "Set_Has_loop f s (mask j) ((index + 1) AND mask j) key = Some (Inr b)" by blast
  with Suc.prems(1) assms(2) show ?case unfolding f by auto
qed

lemma Set_Add_loop_total:
  assumes "j \<le> 30" "length (Data s) = 2 ^ j" "Data s ! z = 0" "int32_ok (NumElems s + 1)"
    and "unat index < 2 ^ j" "(unat index + k) mod 2 ^ j = z" "k < fuel"
  shows "\<exists>b s'. Set_Add_loop fuel s (mask j) index key = Some (Inr (b, s'))"
  using assms(5-)
proof (induction k arbitrary: index fuel)
  case 0
  then obtain f where f: "fuel = Suc f" by (cases fuel) auto
  from 0 have "unat index = z" by simp
  with assms(2,3,4) 0(1) show ?case unfolding f by auto
next
  case (Suc k)
  then obtain f where f: "fuel = Suc f" by (cases fuel) auto
  from Suc.prems(3) f have kf: "k < f" by simp
  from Suc.IH[OF ahead_step(2)[OF assms(1) Suc.prems(2)] ahead_step(1)[OF assms(1) Suc.prems(2)] kf]
  obtain b s' where "Set_Add_loop f s (mask j) ((index + 1) AND mask j) key = Some (Inr (b, s'))" by blast
  with Suc.prems(1) assms(2,4) show ?case unfolding f by auto
qed

lemma inv_empty_slot:
  assumes "set_inv h s" "NumSlots s \<noteq> 0"
  shows "\<exists>z<length (Data s). Data s ! z = 0"
proof -
  from assms have sh: "table_shape s" and ld: "100 * NumElems s \<le> 70 * NumSlots s"
    by (auto simp: set_inv_def)
  from sh have "0 \<le> NumSlots s" "int (length (Data s)) = NumSlots s"
    "NumElems s = int (length (filter (\<lambda>k. k \<noteq> 0) (Data s)))"
    by (auto simp: table_shape_def)
  with ld assms(2) have "length (filter (\<lambda>k. k \<noteq> 0) (Data s)) < length (Data s)" by linarith
  then show ?thesis by (rule empty_slot_exists)
qed

lemma ahead_exists:
  assumes "a < n" "z < (n::nat)"
  shows "\<exists>k<n. (a + k) mod n = z"
  using pos_exists[OF assms] .

text \<open>Has: the result is membership.\<close>

lemma Set_Has_correct:
  assumes inv: "set_inv h s" and fuel: "NumSlots s \<le> int fuel"
  shows "Set_Has fuel h s key = Some (Inr (key \<in> keys_of s))"
proof (cases "NumSlots s = 0")
  case True
  from inv have "int (length (Data s)) = NumSlots s" by (simp add: set_inv_def table_shape_def)
  with True have "Data s = []" by simp
  with True show ?thesis by (simp add: Set_Has_def keys_of_def)
next
  case False
  from inv have sh: "table_shape s" and pc: "probe_chain (home h s) (Data s)"
    by (auto simp: set_inv_def)
  from shape_geom[OF sh False] obtain j where g: "geom s j" by blast
  then have j: "j \<le> 30" and len: "length (Data s) = 2 ^ j" and ns: "NumSlots s = 2 ^ j"
    by (auto simp: geom_def)
  let ?n = "2 ^ j :: nat"
  let ?a = "home h s key"
  have a: "?a = unat (h key) mod ?n" by (rule geom_home[OF g])
  have idx: "unat (h key AND mask j) = (?a + 0) mod ?n"
    by (simp add: unat_and_mask_mod a)
  have il: "unat (h key AND mask j) < ?n" by (simp add: unat_and_mask_mod)
  from inv_empty_slot[OF inv False] obtain z where z: "z < length (Data s)" "Data s ! z = 0"
    by blast
  from ahead_exists[OF il] z(1) len obtain k where k: "k < ?n" "(unat (h key AND mask j) + k) mod ?n = z"
    by auto
  from fuel ns have "?n \<le> fuel" by (metis of_nat_le_iff of_nat_numeral of_nat_power)
  with k(1) have kf: "k < fuel" by simp
  from Set_Has_loop_total[OF j len z(2) il k(2) kf] obtain b where
    run: "Set_Has_loop fuel s (mask j) (h key AND mask j) key = Some (Inr b)" by blast
  from Set_Has_loop_pc[OF run j len idx] obtain d where
    path: "\<forall>e<d. Data s ! ((?a + e) mod ?n) \<noteq> 0 \<and> Data s ! ((?a + e) mod ?n) \<noteq> key"
    and res: "(Data s ! ((?a + d) mod ?n) = 0 \<and> \<not> b) \<or>
       (Data s ! ((?a + d) mod ?n) \<noteq> 0 \<and> Data s ! ((?a + d) mod ?n) = key \<and> b)"
    by auto
  let ?p = "(?a + d) mod ?n"
  have p: "?p < length (Data s)" using len by simp
  have "b \<longleftrightarrow> key \<in> keys_of s"
    using res
  proof (elim disjE conjE)
    assume f: "Data s ! ?p \<noteq> 0" "Data s ! ?p = key" "b"
    then have "key \<in> set (Data s)" using p by (metis nth_mem)
    with f show ?thesis by (auto simp: keys_of_def)
  next
    assume f: "Data s ! ?p = 0" "\<not> b"
    show ?thesis
    proof (cases "key = 0")
      case True
      with f show ?thesis by (simp add: keys_of_def)
    next
      case False
      have "key \<notin> set (Data s)"
        by (rule probe_absent[OF pc False, of d]) (use path f(1) len in auto)
      with f show ?thesis by (simp add: keys_of_def)
    qed
  qed
  with run False show ?thesis by (simp add: Set_Has_def geom_msk[OF g])
qed

section \<open>Remove: the backward shift restores the probe chains\<close>

lemma wreachD:
  "wreach xs p a slot \<Longrightarrow>
   \<exists>d<length xs. (a + d) mod length xs = slot \<and>
     (\<forall>e<d. xs ! ((a + e) mod length xs) \<noteq> 0 \<or> (a + e) mod length xs = p)"
  by (auto simp: wreach_def)

lemma wreachI:
  "d < length xs \<Longrightarrow> (a + d) mod length xs = slot \<Longrightarrow>
   (\<And>e. e < d \<Longrightarrow> xs ! ((a + e) mod length xs) \<noteq> 0 \<or> (a + e) mod length xs = p) \<Longrightarrow>
   wreach xs p a slot"
  unfolding wreach_def by auto

lemma shift_invD:
  assumes "shift_inv h s p t"
  shows "table_shape s" "NumSlots s \<noteq> 0" "70 * NumSlots s \<le> 2147483647"
    "100 * (NumElems s + 1) \<le> 70 * NumSlots s" "p < length (Data s)" "Data s ! p = 0"
    "\<And>q. q < length (Data s) \<Longrightarrow> Data s ! q \<noteq> 0 \<Longrightarrow>
        reaches (Data s) (home h s (Data s ! q)) q \<or>
        (wreach (Data s) p (home h s (Data s ! q)) q \<and>
         (\<forall>u\<le>t. (p + u) mod length (Data s) \<noteq> q))"
  using assms by (auto simp: shift_inv_def)

text \<open>A weak path that is not a path goes through the hole, and on to its end.\<close>

lemma wreach_through:
  assumes w: "wreach xs p a q" and nr: "\<not> reaches xs a q"
  shows "\<exists>u. 0 < u \<and> u < length xs \<and> (p + u) mod length xs = q \<and>
     (\<forall>v. 0 < v \<and> v < u \<longrightarrow> xs ! ((p + v) mod length xs) \<noteq> 0)"
proof -
  let ?n = "length xs"
  from wreachD[OF w] obtain d where d: "d < ?n" "(a + d) mod ?n = q"
    "\<And>e. e < d \<Longrightarrow> xs ! ((a + e) mod ?n) \<noteq> 0 \<or> (a + e) mod ?n = p"
    by blast
  have "\<exists>e0<d. xs ! ((a + e0) mod ?n) = 0"
  proof (rule ccontr)
    assume "\<not> ?thesis"
    then have "\<And>e. e < d \<Longrightarrow> xs ! ((a + e) mod ?n) \<noteq> 0" by blast
    from reachesI[OF d(1,2) this] nr show False by blast
  qed
  then obtain e0 where e0: "e0 < d" "xs ! ((a + e0) mod ?n) = 0" by blast
  with d(3) have pe: "(a + e0) mod ?n = p" by blast
  have shift: "\<And>v. (p + v) mod ?n = (a + (e0 + v)) mod ?n"
  proof -
    fix v
    have "(p + v) mod ?n = ((a + e0) mod ?n + v) mod ?n" by (simp only: pe)
    also have "\<dots> = (a + e0 + v) mod ?n" by (simp only: mod_add_left_eq)
    finally show "(p + v) mod ?n = (a + (e0 + v)) mod ?n" by (simp only: add.assoc)
  qed
  show ?thesis
  proof (intro exI[of _ "d - e0"] conjI allI impI)
    show "0 < d - e0" using e0(1) by simp
    show "d - e0 < ?n" using d(1) by simp
    show "(p + (d - e0)) mod ?n = q" using shift[of "d - e0"] e0(1) d(2) by simp
    fix v assume v: "0 < v \<and> v < d - e0"
    then have lt: "e0 + v < d" by linarith
    from d(3)[OF lt] show "xs ! ((p + v) mod ?n) \<noteq> 0"
    proof
      assume "xs ! ((a + (e0 + v)) mod ?n) \<noteq> 0"
      then show "xs ! ((p + v) mod ?n) \<noteq> 0" by (simp add: shift)
    next
      assume "(a + (e0 + v)) mod ?n = p"
      with pe have "(a + (e0 + v)) mod ?n = (a + e0) mod ?n" by simp
      from pos_inj[OF _ _ this] lt d(1) e0(1) have "e0 + v = e0" by simp
      with v show "xs ! ((p + v) mod ?n) \<noteq> 0" by simp
    qed
  qed
qed

lemma shift_inv_exit:
  assumes J: "shift_inv h s p t" and stop: "Data s ! ((p + Suc t) mod length (Data s)) = 0"
  shows "set_inv h s"
proof -
  let ?xs = "Data s" let ?n = "length (Data s)"
  note D = shift_invD[OF J]
  from D(1) have "0 \<le> NumElems s" by (simp add: table_shape_def)
  have ld: "100 * NumElems s \<le> 70 * NumSlots s" using D(4) by simp
  have "probe_chain (home h s) ?xs"
    unfolding probe_chain_def
  proof (intro ballI impI)
    fix q assume q: "q \<in> {..<?n}" and nz: "?xs ! q \<noteq> 0"
    then have ql: "q < ?n" by simp
    show "reaches ?xs (home h s (?xs ! q)) q"
    proof (rule ccontr)
      assume nr: "\<not> ?thesis"
      with D(7)[OF ql nz] have w: "wreach ?xs p (home h s (?xs ! q)) q"
        and far: "\<forall>u\<le>t. (p + u) mod ?n \<noteq> q" by auto
      from wreach_through[OF w nr] obtain u where u: "0 < u" "u < ?n" "(p + u) mod ?n = q"
        "\<And>v. 0 < v \<and> v < u \<Longrightarrow> ?xs ! ((p + v) mod ?n) \<noteq> 0"
        by blast
      have "t < u"
      proof (rule ccontr)
        assume "\<not> t < u"
        then have "u \<le> t" by simp
        with far u(3) show False by blast
      qed
      then consider "Suc t = u" | "Suc t < u" by linarith
      then show False
      proof cases
        case 1
        with u(3) stop nz show False by simp
      next
        case 2
        from u(4)[of "Suc t"] 2 stop show False by simp
      qed
    qed
  qed
  with D(1) ld show ?thesis by (simp add: set_inv_def)
qed

lemma shift_inv_init:
  assumes inv: "set_inv h s" and p: "p < length (Data s)" and nz: "Data s ! p \<noteq> 0"
  shows "shift_inv h (s\<lparr>Data := (Data s)[p := 0], NumElems := NumElems s - 1\<rparr>) p 0"
proof -
  let ?xs = "Data s" let ?n = "length (Data s)"
  let ?s1 = "s\<lparr>Data := (Data s)[p := 0], NumElems := NumElems s - 1\<rparr>"
  from inv have sh: "table_shape s" and ld: "100 * NumElems s \<le> 70 * NumSlots s"
    and pc: "probe_chain (home h s) ?xs"
    by (auto simp: set_inv_def)
  have cnt: "Suc (length (filter (\<lambda>k. k \<noteq> 0) (?xs[p := 0]))) = length (filter (\<lambda>k. k \<noteq> 0) ?xs)"
    using count_remove[OF p, of "\<lambda>k. k \<noteq> 0" 0] nz by simp
  from sh have e: "NumElems s = int (length (filter (\<lambda>k. k \<noteq> 0) ?xs))"
    and len: "int ?n = NumSlots s" and dk: "distinct_keys ?xs"
    by (auto simp: table_shape_def)
  from e cnt have e1: "NumElems s \<noteq> 0" "NumElems s - 1 = int (length (filter (\<lambda>k. k \<noteq> 0) (?xs[p := 0])))"
    by linarith+
  from len p have ns: "NumSlots s \<noteq> 0" by auto
  from sh e1(1) have g: "70 * NumSlots s \<le> 2147483647" by (auto simp: table_shape_def)
  have sh1: "table_shape ?s1"
    using sh e1(2) distinct_keys_remove[OF dk, of p] g
    by (simp add: table_shape_def)
  have hm: "home h ?s1 = home h s" by (rule home_cong) simp
  have chain: "\<forall>q\<in>{..<length (Data ?s1)}. Data ?s1 ! q \<noteq> 0 \<longrightarrow>
        reaches (Data ?s1) (home h ?s1 (Data ?s1 ! q)) q \<or>
        (wreach (Data ?s1) p (home h ?s1 (Data ?s1 ! q)) q \<and>
         (\<forall>u\<in>{..0}. (p + u) mod length (Data ?s1) \<noteq> q))"
  proof (intro ballI impI)
    fix q assume q: "q \<in> {..<length (Data ?s1)}" and qz: "Data ?s1 ! q \<noteq> 0"
    then have ql: "q < ?n" by simp
    from qz ql have qp: "q \<noteq> p" by (auto simp: nth_list_update)
    with qz ql have same: "Data ?s1 ! q = ?xs ! q" and nzq: "?xs ! q \<noteq> 0" by auto
    from reachesD[OF probe_chainD[OF pc ql nzq]] obtain d where d: "d < ?n"
      "(home h s (?xs ! q) + d) mod ?n = q"
      "\<forall>e<d. ?xs ! ((home h s (?xs ! q) + e) mod ?n) \<noteq> 0"
      by blast
    have w: "wreach (?xs[p := 0]) p (home h s (?xs ! q)) q"
    proof (rule wreachI[of d])
      show "d < length (?xs[p := 0])" using d(1) by simp
      show "(home h s (?xs ! q) + d) mod length (?xs[p := 0]) = q" using d(2) by simp
      fix e assume "e < d"
      with d(3) have "?xs ! ((home h s (?xs ! q) + e) mod ?n) \<noteq> 0" by blast
      moreover have "0 < ?n" using d(1) by linarith
      then have "(home h s (?xs ! q) + e) mod ?n < ?n" by simp
      ultimately show "?xs[p := 0] ! ((home h s (?xs ! q) + e) mod length (?xs[p := 0])) \<noteq> 0 \<or>
         (home h s (?xs ! q) + e) mod length (?xs[p := 0]) = p"
        using p by (auto simp: nth_list_update)
    qed
    have "\<forall>u\<in>{..0::nat}. (p + u) mod length (Data ?s1) \<noteq> q" using qp p by simp
    with w show "reaches (Data ?s1) (home h ?s1 (Data ?s1 ! q)) q \<or>
        (wreach (Data ?s1) p (home h ?s1 (Data ?s1 ! q)) q \<and>
         (\<forall>u\<in>{..0}. (p + u) mod length (Data ?s1) \<noteq> q))"
      unfolding hm same by simp
  qed
  have "100 * (NumElems ?s1 + 1) \<le> 70 * NumSlots ?s1" using ld by simp
  moreover have "p < length (Data ?s1)" "Data ?s1 ! p = 0" using p by simp_all
  moreover have "NumSlots ?s1 \<noteq> 0" "70 * NumSlots ?s1 \<le> 2147483647" using ns g by simp_all
  ultimately show ?thesis
    unfolding shift_inv_def using sh1 chain by blast
qed

lemma reaches_wreach: "reaches xs a q \<Longrightarrow> wreach xs p a q"
  unfolding reaches_def wreach_def by blast

lemma shift_add_unfold:
  assumes J: "shift_inv h s p t" and g: "geom s j" and nz: "Data s ! i1 \<noteq> 0"
  shows "Set_Add (Suc f) h (s\<lparr>Data := (Data s)[i1 := 0], NumElems := NumElems s - 1\<rparr>) (Data s ! i1)
    = Set_Add_loop f (s\<lparr>Data := (Data s)[i1 := 0], NumElems := NumElems s - 1\<rparr>) (mask j)
        (h (Data s ! i1) AND mask j) (Data s ! i1)"
proof -
  note D = shift_invD[OF J]
  from D(1) have al: "Allocator s" and e0: "0 \<le> NumElems s" by (auto simp: table_shape_def)
  from g have j: "j \<le> 30" and ns: "NumSlots s = 2 ^ j" by (auto simp: geom_def)
  have m: "(word_of_int (2 ^ j) :: u32) - 1 = mask j" by (rule msk_eq[OF j])
  have a: "int32_ok (100 * NumElems s)" "int32_ok (70 * NumSlots s)"
    "\<not> 70 * NumSlots s < 100 * NumElems s"
    using D(3,4) e0 by (auto simp: int32_ok_def)
  show ?thesis
    using al nz a by (simp add: ns Let_def mask_eq_exp_minus_1)
qed

lemma shift_step:
  assumes J: "shift_inv h s p t" and g: "geom s j"
    and i1: "i1 = (p + Suc t) mod length (Data s)" and nz: "Data s ! i1 \<noteq> 0"
    and run: "Set_Add_loop f (s\<lparr>Data := (Data s)[i1 := 0], NumElems := NumElems s - 1\<rparr>) (mask j)
        (h (Data s ! i1) AND mask j) (Data s ! i1) = Some (Inr (b, s2))"
  shows "\<exists>p' t'. shift_inv h s2 p' t' \<and> (p' + t') mod length (Data s) = i1 \<and>
     keys_of s2 = keys_of s \<and> NumSlots s2 = NumSlots s \<and> length (Data s2) = length (Data s) \<and>
     (\<forall>z. z \<noteq> p \<and> Data s ! z = 0 \<longrightarrow> Data s2 ! z = 0 \<and> z \<noteq> p')"
proof -
  define xs where "xs = Data s"
  define temp where "temp = xs ! i1"
  define a where "a = home h s temp"
  let ?n = "length xs"
  let ?s1 = "s\<lparr>Data := xs[i1 := 0], NumElems := NumElems s - 1\<rparr>"
  note D = shift_invD[OF J, folded xs_def]
  from g have j: "j \<le> 30" and len: "?n = 2 ^ j" and ns: "NumSlots s = 2 ^ j"
    by (auto simp: geom_def xs_def)
  have npos: "0 < ?n" using len by simp
  have i1l: "i1 < ?n" using i1 npos by (simp add: xs_def)
  have tz: "temp \<noteq> 0" using nz by (simp add: temp_def xs_def)
  have pi: "p \<noteq> i1" using D(6) nz by (auto simp: xs_def)
  from D(1) have dk: "distinct_keys xs" and cnt: "NumElems s = int (length (filter (\<lambda>k. k \<noteq> 0) xs))"
    by (auto simp: table_shape_def xs_def)
  have pos_lt: "\<And>e. (a + e) mod ?n < ?n" using npos by simp
  have "wreach xs p a i1"
    using D(7)[OF i1l] nz reaches_wreach[of xs a i1 p] by (auto simp: a_def temp_def xs_def)
  from wreachD[OF this] obtain d where d: "d < ?n" "(a + d) mod ?n = i1"
    "\<And>e. e < d \<Longrightarrow> xs ! ((a + e) mod ?n) \<noteq> 0 \<or> (a + e) mod ?n = p"
    by blast
  have run': "Set_Add_loop f ?s1 (mask j) (h temp AND mask j) temp = Some (Inr (b, s2))"
    using run by (simp add: xs_def temp_def)
  have len1: "length (Data ?s1) = 2 ^ j" using len by simp
  have idx: "unat (h temp AND mask j) = (a + 0) mod 2 ^ j"
    by (simp add: unat_and_mask_mod a_def geom_home[OF g])
  from Set_Add_loop_pc[OF run' j len1 idx] obtain d' where
    path: "\<forall>e<d'. Data ?s1 ! ((a + e) mod 2 ^ j) \<noteq> 0 \<and> Data ?s1 ! ((a + e) mod 2 ^ j) \<noteq> temp"
    and res: "(Data ?s1 ! ((a + d') mod 2 ^ j) = 0 \<and> b \<and> int32_ok (NumElems ?s1 + 1) \<and>
          s2 = ?s1\<lparr>Data := (Data ?s1)[(a + d') mod 2 ^ j := temp], NumElems := NumElems ?s1 + 1\<rparr>) \<or>
       (Data ?s1 ! ((a + d') mod 2 ^ j) \<noteq> 0 \<and> Data ?s1 ! ((a + d') mod 2 ^ j) = temp \<and> \<not> b \<and> s2 = ?s1)"
    by auto
  define q where "q = (a + d') mod ?n"
  have ql: "q < ?n" unfolding q_def using npos by simp
  have path1: "\<And>e. e < d' \<Longrightarrow> xs[i1 := 0] ! ((a + e) mod ?n) \<noteq> 0"
    using path by (simp add: len)
  have gone: "temp \<notin> set (xs[i1 := 0])"
  proof
    assume "temp \<in> set (xs[i1 := 0])"
    with tz have "temp \<in> set (xs[i1 := 0]) - {0}" by simp
    also have "\<dots> = set xs - {0} - {xs ! i1}"
      by (rule keys_update_remove[OF i1l dk]) (use nz in \<open>simp add: xs_def\<close>)
    finally show False by (simp add: temp_def)
  qed
  have res1: "xs[i1 := 0] ! q = 0"
    and s2: "s2 = s\<lparr>Data := xs[i1 := 0, q := temp], NumElems := NumElems s\<rparr>"
  proof -
    from res have "xs[i1 := 0] ! q = 0 \<and> s2 = s\<lparr>Data := xs[i1 := 0, q := temp], NumElems := NumElems s\<rparr>"
    proof
      assume "Data ?s1 ! ((a + d') mod 2 ^ j) \<noteq> 0 \<and> Data ?s1 ! ((a + d') mod 2 ^ j) = temp \<and> \<not> b \<and> s2 = ?s1"
      then have "xs[i1 := 0] ! q = temp" by (simp add: q_def len)
      then have "temp \<in> set (xs[i1 := 0])" using ql by (metis length_list_update nth_mem)
      with gone show ?thesis by blast
    next
      assume "Data ?s1 ! ((a + d') mod 2 ^ j) = 0 \<and> b \<and> int32_ok (NumElems ?s1 + 1) \<and>
          s2 = ?s1\<lparr>Data := (Data ?s1)[(a + d') mod 2 ^ j := temp], NumElems := NumElems ?s1 + 1\<rparr>"
      then show ?thesis by (simp add: q_def len)
    qed
    then show "xs[i1 := 0] ! q = 0"
      and "s2 = s\<lparr>Data := xs[i1 := 0, q := temp], NumElems := NumElems s\<rparr>" by blast+
  qed
  have dd: "d' \<le> d"
  proof (rule ccontr)
    assume "\<not> d' \<le> d"
    then have "d < d'" by simp
    from path1[OF this] d(2) i1l show False by simp
  qed
  have hm2: "home h s2 = home h s" by (rule home_cong) (simp add: s2)
  have ns2: "NumSlots s2 = NumSlots s" by (simp add: s2)
  have len2: "length (Data s2) = length (Data s)" by (simp add: s2 xs_def)
  show ?thesis
  proof (cases "d' = d")
    case True
    then have qi: "q = i1" using d(2) by (simp add: q_def)
    have "xs[i1 := 0, i1 := temp] = xs" by (simp add: temp_def)
    then have same: "s2 = s"
      unfolding s2 qi by (simp add: xs_def)
    have r: "reaches xs a i1"
    proof (rule reachesI[OF d(1,2)])
      fix e assume "e < d"
      with path1[of e] True have "xs[i1 := 0] ! ((a + e) mod ?n) \<noteq> 0" by simp
      then show "xs ! ((a + e) mod ?n) \<noteq> 0"
        by (cases "(a + e) mod ?n = i1") (use i1l in auto)
    qed
    have chain: "\<forall>r\<in>{..<length (Data s)}. Data s ! r \<noteq> 0 \<longrightarrow>
        reaches (Data s) (home h s (Data s ! r)) r \<or>
        (wreach (Data s) p (home h s (Data s ! r)) r \<and>
         (\<forall>u\<in>{..Suc t}. (p + u) mod length (Data s) \<noteq> r))"
    proof (intro ballI impI)
      fix r assume rl: "r \<in> {..<length (Data s)}" and rz: "Data s ! r \<noteq> 0"
      from rl have rl': "r < ?n" by (simp add: xs_def)
      from rz have rz': "xs ! r \<noteq> 0" by (simp add: xs_def)
      show "reaches (Data s) (home h s (Data s ! r)) r \<or>
        (wreach (Data s) p (home h s (Data s ! r)) r \<and>
         (\<forall>u\<in>{..Suc t}. (p + u) mod length (Data s) \<noteq> r))"
      proof (cases "r = i1")
        case True
        have "reaches (Data s) (home h s (Data s ! r)) r"
          using r unfolding True a_def temp_def xs_def .
        then show ?thesis ..
      next
        case ne: False
        from D(7)[OF rl' rz'] show ?thesis
        proof
          assume "reaches xs (home h s (xs ! r)) r"
          then have "reaches (Data s) (home h s (Data s ! r)) r" unfolding xs_def .
          then show ?thesis ..
        next
          assume w: "wreach xs p (home h s (xs ! r)) r \<and> (\<forall>u\<le>t. (p + u) mod ?n \<noteq> r)"
          have "\<forall>u\<in>{..Suc t}. (p + u) mod length (Data s) \<noteq> r"
          proof
            fix u assume "u \<in> {..Suc t}"
            then consider "u \<le> t" | "u = Suc t" by fastforce
            then show "(p + u) mod length (Data s) \<noteq> r"
            proof cases
              case 1
              with w show ?thesis unfolding xs_def by blast
            next
              case 2
              with ne i1 show ?thesis by simp
            qed
          qed
          moreover from w have "wreach (Data s) p (home h s (Data s ! r)) r" unfolding xs_def by blast
          ultimately show ?thesis by blast
        qed
      qed
    qed
    have "shift_inv h s p (Suc t)"
      unfolding shift_inv_def using D(1-6)[unfolded xs_def] chain by blast
    then have "shift_inv h s2 p (Suc t) \<and> (p + Suc t) mod length (Data s) = i1 \<and>
     keys_of s2 = keys_of s \<and> NumSlots s2 = NumSlots s \<and> length (Data s2) = length (Data s) \<and>
     (\<forall>z. z \<noteq> p \<and> Data s ! z = 0 \<longrightarrow> Data s2 ! z = 0 \<and> z \<noteq> p)"
      unfolding same using i1 by simp
    then show ?thesis by blast
  next
    case False
    with dd have lt: "d' < d" by simp
    have qi: "q \<noteq> i1"
    proof
      assume "q = i1"
      with d(2) have "(a + d') mod ?n = (a + d) mod ?n" by (simp add: q_def)
      from pos_inj[OF _ d(1) this] lt d(1) show False by simp
    qed
    with res1 have "xs ! q = 0" by simp
    with d(3)[OF lt] have qp: "q = p" by (simp add: q_def)
    let ?xs2 = "xs[i1 := 0, p := temp]"
    have d2: "Data s2 = ?xs2" by (simp add: s2 qp)
    have pl: "p < ?n" using D(5) .
    have x2p: "?xs2 ! p = temp" using pl by simp
    have x2i: "?xs2 ! i1 = 0" using pi i1l by simp
    have x2o: "\<And>r. r \<noteq> p \<Longrightarrow> r \<noteq> i1 \<Longrightarrow> ?xs2 ! r = xs ! r" by simp
    have c1: "Suc (length (filter (\<lambda>k. k \<noteq> 0) (xs[i1 := 0]))) = length (filter (\<lambda>k. k \<noteq> 0) xs)"
      using count_remove[OF i1l, of "\<lambda>k. k \<noteq> 0" 0] nz by (simp add: xs_def)
    have c2: "length (filter (\<lambda>k. k \<noteq> 0) ?xs2) = Suc (length (filter (\<lambda>k. k \<noteq> 0) (xs[i1 := 0])))"
      using count_insert[of p "xs[i1 := 0]" "\<lambda>k. k \<noteq> 0" temp] pl res1 qp tz by simp
    have dk2: "distinct_keys ?xs2"
      by (rule distinct_keys_insert[OF distinct_keys_remove[OF dk] gone]) (use pl in simp)
    have sh2: "table_shape s2"
      using D(1,3) c1 c2 dk2 unfolding table_shape_def s2 qp by (simp add: xs_def)
    have ks: "keys_of s2 = keys_of s"
    proof -
      have "set ?xs2 - {0} = insert temp (set (xs[i1 := 0]) - {0})"
        by (rule keys_update_insert) (use pl res1 qp tz in auto)
      also have "set (xs[i1 := 0]) - {0} = set xs - {0} - {xs ! i1}"
        by (rule keys_update_remove[OF i1l dk]) (use nz in \<open>simp add: xs_def\<close>)
      also have "insert temp (set xs - {0} - {xs ! i1}) = set xs - {0}"
        using i1l tz by (auto simp: temp_def)
      finally show ?thesis by (simp add: keys_of_def d2 xs_def)
    qed
    have chain: "\<forall>r\<in>{..<length (Data s2)}. Data s2 ! r \<noteq> 0 \<longrightarrow>
        reaches (Data s2) (home h s2 (Data s2 ! r)) r \<or>
        (wreach (Data s2) i1 (home h s2 (Data s2 ! r)) r \<and>
         (\<forall>u\<in>{..0}. (i1 + u) mod length (Data s2) \<noteq> r))"
      unfolding d2 hm2
    proof (intro ballI impI)
      fix r assume rl: "r \<in> {..<length ?xs2}" and rz: "?xs2 ! r \<noteq> 0"
      from rl have rl': "r < ?n" by simp
      from rz x2i have ri: "r \<noteq> i1" by auto
      then have far: "\<forall>u\<in>{..0}. (i1 + u) mod length ?xs2 \<noteq> r" using i1l by simp
      have "wreach ?xs2 i1 (home h s (?xs2 ! r)) r"
      proof (cases "r = p")
        case True
        show ?thesis
        proof (rule wreachI[of d'])
          show "d' < length ?xs2" using lt d(1) by simp
          show "(home h s (?xs2 ! r) + d') mod length ?xs2 = r"
            using True x2p qp by (simp add: q_def a_def)
          fix e assume e: "e < d'"
          from path1[OF e] have "?xs2 ! ((a + e) mod ?n) \<noteq> 0"
            using tz pl by (cases "(a + e) mod ?n = p") auto
          then show "?xs2 ! ((home h s (?xs2 ! r) + e) mod length ?xs2) \<noteq> 0 \<or>
              (home h s (?xs2 ! r) + e) mod length ?xs2 = i1"
            using True x2p by (simp add: a_def)
        qed
      next
        case False
        with ri have same: "?xs2 ! r = xs ! r" by simp
        with rz have rz': "xs ! r \<noteq> 0" by simp
        define c where "c = home h s (xs ! r)"
        have "wreach xs p c r"
          using D(7)[OF rl'] rz' reaches_wreach[of xs c r p] by (auto simp: c_def xs_def)
        from wreachD[OF this] obtain dr where dr: "dr < ?n" "(c + dr) mod ?n = r"
          "\<And>e. e < dr \<Longrightarrow> xs ! ((c + e) mod ?n) \<noteq> 0 \<or> (c + e) mod ?n = p"
          by blast
        have "wreach ?xs2 i1 c r"
        proof (rule wreachI[of dr])
          show "dr < length ?xs2" using dr(1) by simp
          show "(c + dr) mod length ?xs2 = r" using dr(2) by simp
          fix e assume e: "e < dr"
          let ?x = "(c + e) mod ?n"
          have "?xs2 ! ?x \<noteq> 0 \<or> ?x = i1"
          proof (cases "?x = p")
            case True
            with x2p tz show ?thesis by simp
          next
            case np: False
            with dr(3)[OF e] have "xs ! ?x \<noteq> 0" by blast
            then show ?thesis using np by (cases "?x = i1") auto
          qed
          then show "?xs2 ! ((c + e) mod length ?xs2) \<noteq> 0 \<or> (c + e) mod length ?xs2 = i1"
            by simp
        qed
        then show ?thesis by (simp add: same c_def)
      qed
      with far show "reaches ?xs2 (home h s (?xs2 ! r)) r \<or>
        (wreach ?xs2 i1 (home h s (?xs2 ! r)) r \<and>
         (\<forall>u\<in>{..0}. (i1 + u) mod length ?xs2 \<noteq> r))" by blast
    qed
    have a1: "NumSlots s2 \<noteq> 0" "70 * NumSlots s2 \<le> 2147483647"
      "100 * (NumElems s2 + 1) \<le> 70 * NumSlots s2"
      using D(2,3,4) by (simp_all add: s2)
    have a2: "i1 < length (Data s2)" "Data s2 ! i1 = 0" using i1l x2i by (simp_all add: d2)
    have J2: "shift_inv h s2 i1 0"
      unfolding shift_inv_def using sh2 a1 a2 chain by blast
    have zz: "\<forall>z. z \<noteq> p \<and> Data s ! z = 0 \<longrightarrow> Data s2 ! z = 0 \<and> z \<noteq> i1"
    proof (intro allI impI)
      fix z assume z: "z \<noteq> p \<and> Data s ! z = 0"
      then have zi: "z \<noteq> i1" using nz by auto
      with z show "Data s2 ! z = 0 \<and> z \<noteq> i1" by (simp add: d2 xs_def)
    qed
    show ?thesis
      using J2 ks ns2 len2 zz i1l
      by (intro exI[of _ i1] exI[of _ 0]) (simp add: xs_def)
  qed
qed

lemma shift_unfold_empty:
  assumes "unat ((index + 1) AND msk) < length (Data s)" "Data s ! unat ((index + 1) AND msk) = 0"
  shows "Set_Remove_shift (Suc fuel) h s msk index = Some (Inr s)"
  using assms by (simp add: Let_def)

lemma shift_unfold_move:
  assumes "unat ((index + 1) AND msk) < length (Data s)" "Data s ! unat ((index + 1) AND msk) \<noteq> 0"
    "int32_ok (NumElems s - 1)"
  shows "Set_Remove_shift (Suc fuel) h s msk index =
    (case Set_Add fuel h (s\<lparr>Data := (Data s)[unat ((index + 1) AND msk) := 0],
                              NumElems := NumElems s - 1\<rparr>) (Data s ! unat ((index + 1) AND msk)) of
       None \<Rightarrow> None
     | Some (Inl e) \<Rightarrow> Some (Inl e)
     | Some (Inr (added_new, s2)) \<Rightarrow> Set_Remove_shift fuel h s2 msk ((index + 1) AND msk))"
  using assms by (simp add: Let_def)

lemma shift_inv_ok: "shift_inv h s p t \<Longrightarrow> int32_ok (NumElems s - 1) \<and> int32_ok (NumElems s)"
  by (auto simp: shift_inv_def table_shape_def int32_ok_def)

lemma geom_same:
  "geom s j \<Longrightarrow> NumSlots s2 = NumSlots s \<Longrightarrow> length (Data s2) = length (Data s) \<Longrightarrow> geom s2 j"
  by (simp add: geom_def)

lemma Set_Remove_shift_pc:
  assumes "Set_Remove_shift fuel h s (mask j) index = Some (Inr s')"
    and "shift_inv h s p t" "geom s j" "unat index = (p + t) mod 2 ^ j"
  shows "set_inv h s' \<and> keys_of s' = keys_of s \<and> NumSlots s' = NumSlots s"
  using assms
proof (induction fuel arbitrary: s index p t)
  case 0
  then show ?case by simp
next
  case (Suc fuel)
  note J = Suc.prems(2) and g = Suc.prems(3)
  from g have j: "j \<le> 30" and len: "length (Data s) = 2 ^ j" by (auto simp: geom_def)
  let ?ix = "(index + 1) AND mask j"
  let ?i1 = "(p + Suc t) mod length (Data s)"
  have step: "unat ?ix = ?i1"
    using unat_step_mask[OF j, of index] Suc.prems(4) by (simp add: mod_Suc_eq len)
  have i1l: "unat ?ix < length (Data s)" unfolding step using len by simp
  show ?case
  proof (cases "Data s ! unat ?ix = 0")
    case True
    from Suc.prems(1) have "s' = s" unfolding shift_unfold_empty[OF i1l True] by simp
    moreover have "set_inv h s" by (rule shift_inv_exit[OF J]) (use True step in simp)
    ultimately show ?thesis by simp
  next
    case False
    let ?s1 = "s\<lparr>Data := (Data s)[unat ?ix := 0], NumElems := NumElems s - 1\<rparr>"
    let ?temp = "Data s ! unat ?ix"
    from shift_inv_ok[OF J] have ok: "int32_ok (NumElems s - 1)" by simp
    note u = shift_unfold_move[OF i1l False ok, of fuel h]
    from Suc.prems(1) obtain b s2 where add: "Set_Add fuel h ?s1 ?temp = Some (Inr (b, s2))"
      and rec: "Set_Remove_shift fuel h s2 (mask j) ?ix = Some (Inr s')"
      unfolding u by (auto split: option.splits sum.splits)
    from add obtain f where f: "fuel = Suc f" by (cases fuel) auto
    from add have loop: "Set_Add_loop f ?s1 (mask j) (h ?temp AND mask j) ?temp = Some (Inr (b, s2))"
      unfolding f shift_add_unfold[OF J g False] .
    from shift_step[OF J g step False loop] obtain p' t' where
      J2: "shift_inv h s2 p' t'" and ix: "(p' + t') mod length (Data s) = unat ?ix"
      and ks: "keys_of s2 = keys_of s" and ns: "NumSlots s2 = NumSlots s"
      and l2: "length (Data s2) = length (Data s)"
      by blast
    have g2: "geom s2 j" by (rule geom_same[OF g ns l2])
    have ix': "unat ?ix = (p' + t') mod 2 ^ j" using ix len by simp
    from Suc.IH[OF rec J2 g2 ix'] ks ns show ?thesis by simp
  qed
qed

lemma Set_Remove_shift_total:
  assumes "shift_inv h s p t" "geom s j" "unat index = (p + t) mod 2 ^ j"
    and "Data s ! z = 0" "z \<noteq> p"
    and "(unat ((index + 1) AND mask j) + k) mod 2 ^ j = z" "k + 2 ^ j + 2 \<le> fuel"
  shows "\<exists>s'. Set_Remove_shift fuel h s (mask j) index = Some (Inr s')"
  using assms
proof (induction k arbitrary: s index p t fuel)
  case 0
  from 0(2) have j: "j \<le> 30" and len: "length (Data s) = 2 ^ j" by (auto simp: geom_def)
  let ?ix = "(index + 1) AND mask j"
  have lt: "unat ?ix < 2 ^ j" by (simp add: unat_and_mask_mod)
  with 0(6) have "unat ?ix = z" by simp
  with 0(4) lt len have e: "unat ?ix < length (Data s)" "Data s ! unat ?ix = 0" by simp_all
  from 0(7) obtain f where f: "fuel = Suc f" by (cases fuel) auto
  show ?case unfolding f shift_unfold_empty[OF e] by simp
next
  case (Suc k)
  note J = Suc.prems(1) and g = Suc.prems(2)
  from g have j: "j \<le> 30" and len: "length (Data s) = 2 ^ j" by (auto simp: geom_def)
  let ?ix = "(index + 1) AND mask j"
  let ?i1 = "(p + Suc t) mod length (Data s)"
  have step: "unat ?ix = ?i1"
    using unat_step_mask[OF j, of index] Suc.prems(3) by (simp add: mod_Suc_eq len)
  have lt: "unat ?ix < 2 ^ j" by (simp add: unat_and_mask_mod)
  then have i1l: "unat ?ix < length (Data s)" using len by simp
  from Suc.prems(7) obtain f where f: "fuel = Suc f" and ff: "k + 2 ^ j + 2 \<le> f"
    by (cases fuel) auto
  show ?case
  proof (cases "Data s ! unat ?ix = 0")
    case True
    show ?thesis unfolding f shift_unfold_empty[OF i1l True] by simp
  next
    case False
    let ?s1 = "s\<lparr>Data := (Data s)[unat ?ix := 0], NumElems := NumElems s - 1\<rparr>"
    let ?temp = "Data s ! unat ?ix"
    from shift_inv_ok[OF J] have ok: "int32_ok (NumElems s - 1)" "int32_ok (NumElems ?s1 + 1)"
      by simp_all
    note u = shift_unfold_move[OF i1l False ok(1), of f h]
    from ff obtain f' where f': "f = Suc f'" and ff': "2 ^ j \<le> f'" by (cases f) auto
    have l1: "length (Data ?s1) = 2 ^ j" using len by simp
    have z1: "Data ?s1 ! unat ?ix = 0" using i1l by simp
    have hl: "unat (h ?temp AND mask j) < 2 ^ j" by (simp add: unat_and_mask_mod)
    from ahead_exists[OF hl lt] obtain k1 where k1: "k1 < 2 ^ j"
      "(unat (h ?temp AND mask j) + k1) mod 2 ^ j = unat ?ix" by blast
    from k1(1) ff' have kf: "k1 < f'" by simp
    from Set_Add_loop_total[OF j l1 z1 ok(2) hl k1(2) kf, of ?temp] obtain b s2 where
      loop: "Set_Add_loop f' ?s1 (mask j) (h ?temp AND mask j) ?temp = Some (Inr (b, s2))"
      by blast
    then have add: "Set_Add f h ?s1 ?temp = Some (Inr (b, s2))"
      unfolding f' shift_add_unfold[OF J g False] .
    from shift_step[OF J g step False loop] obtain p' t' where
      J2: "shift_inv h s2 p' t'" and ix: "(p' + t') mod length (Data s) = unat ?ix"
      and ns: "NumSlots s2 = NumSlots s"
      and l2: "length (Data s2) = length (Data s)"
      and zz: "\<forall>z. z \<noteq> p \<and> Data s ! z = 0 \<longrightarrow> Data s2 ! z = 0 \<and> z \<noteq> p'"
      by blast
    have g2: "geom s2 j" by (rule geom_same[OF g ns l2])
    have ix': "unat ?ix = (p' + t') mod 2 ^ j" using ix len by simp
    from zz Suc.prems(4,5) have z2: "Data s2 ! z = 0" "z \<noteq> p'" by blast+
    note ah = ahead_step(1)[OF j Suc.prems(6)]
    from Suc.IH[OF J2 g2 ix' z2 ah ff] obtain s' where
      "Set_Remove_shift f h s2 (mask j) ?ix = Some (Inr s')" by blast
    then show ?thesis unfolding f u add by simp
  qed
qed

lemma remove_unfold_empty:
  assumes "unat index < length (Data s)" "Data s ! unat index = 0"
  shows "Set_Remove_loop (Suc fuel) h s msk index key = Some (Inr (False, s))"
  using assms by simp

lemma remove_unfold_found:
  assumes "unat index < length (Data s)" "Data s ! unat index \<noteq> 0" "key = Data s ! unat index"
    "int32_ok (NumElems s - 1)"
  shows "Set_Remove_loop (Suc fuel) h s msk index key =
    (case Set_Remove_shift fuel h (s\<lparr>Data := (Data s)[unat index := 0],
            NumElems := NumElems s - 1\<rparr>) msk index of
       None \<Rightarrow> None
     | Some (Inl e) \<Rightarrow> Some (Inl e)
     | Some (Inr s2) \<Rightarrow> Some (Inr (True, s2)))"
  using assms by (simp add: Let_def)

lemma remove_unfold_next:
  assumes "unat index < length (Data s)" "Data s ! unat index \<noteq> 0" "key \<noteq> Data s ! unat index"
  shows "Set_Remove_loop (Suc fuel) h s msk index key =
     Set_Remove_loop fuel h s msk ((index + 1) AND msk) key"
  using assms by simp

lemma inv_ok: "set_inv h s \<Longrightarrow> Data s ! i \<noteq> 0 \<Longrightarrow> i < length (Data s) \<Longrightarrow> int32_ok (NumElems s - 1)"
  using shift_inv_ok[OF shift_inv_init, of h s i] by simp

lemma Set_Remove_loop_pc:
  assumes "Set_Remove_loop fuel h s (mask j) index key = Some (Inr (b, s'))"
    and "j \<le> 30" "length (Data s) = 2 ^ j"
    and "unat index = (a + d) mod 2 ^ j"
    and "\<forall>e<d. Data s ! ((a + e) mod 2 ^ j) \<noteq> 0 \<and> Data s ! ((a + e) mod 2 ^ j) \<noteq> key"
  shows "\<exists>d'. (\<forall>e<d'. Data s ! ((a + e) mod 2 ^ j) \<noteq> 0 \<and> Data s ! ((a + e) mod 2 ^ j) \<noteq> key) \<and>
      ((Data s ! ((a + d') mod 2 ^ j) = 0 \<and> \<not> b \<and> s' = s) \<or>
       (Data s ! ((a + d') mod 2 ^ j) \<noteq> 0 \<and> Data s ! ((a + d') mod 2 ^ j) = key \<and> b \<and>
        (\<exists>f ix. unat ix = (a + d') mod 2 ^ j \<and>
           Set_Remove_shift f h (s\<lparr>Data := (Data s)[(a + d') mod 2 ^ j := 0],
              NumElems := NumElems s - 1\<rparr>) (mask j) ix = Some (Inr s'))))"
  using assms
proof (induction fuel arbitrary: index d)
  case 0
  then show ?case by simp
next
  case (Suc fuel)
  let ?p = "(a + d) mod 2 ^ j"
  have lt: "unat index < length (Data s)" using Suc.prems(3,4) by simp
  show ?case
  proof (cases "Data s ! ?p = 0")
    case True
    with Suc.prems lt show ?thesis
      by (intro exI[of _ d]) (auto split: if_splits)
  next
    case False
    note nz = this
    show ?thesis
    proof (cases "key = Data s ! ?p")
      case True
      let ?s1 = "s\<lparr>Data := (Data s)[?p := 0], NumElems := NumElems s - 1\<rparr>"
      from Suc.prems(1) lt nz True Suc.prems(4)
      have "b \<and> Set_Remove_shift fuel h ?s1 (mask j) index = Some (Inr s')"
        by (auto simp: Let_def split: if_splits option.splits sum.splits)
      with Suc.prems(4,5) nz True show ?thesis
        by (intro exI[of _ d]) auto
    next
      case False
      with Suc.prems lt nz have rec:
        "Set_Remove_loop fuel h s (mask j) ((index + 1) AND mask j) key = Some (Inr (b, s'))"
        by (auto split: if_splits)
      have step: "unat ((index + 1) AND mask j) = (a + Suc d) mod 2 ^ j"
        using unat_step_mask[OF Suc.prems(2), of index] Suc.prems(4) by (simp add: mod_Suc_eq)
      have path: "\<forall>e<Suc d. Data s ! ((a + e) mod 2 ^ j) \<noteq> 0 \<and> Data s ! ((a + e) mod 2 ^ j) \<noteq> key"
        using Suc.prems(5) nz False by (auto simp: less_Suc_eq)
      from Suc.IH[OF rec Suc.prems(2,3) step path] show ?thesis .
    qed
  qed
qed

lemma Set_Remove_correct:
  assumes inv: "set_inv h s" and run: "Set_Remove fuel h s key = Some (Inr (b, s'))"
  shows "set_inv h s' \<and> keys_of s' = keys_of s - {key} \<and> (b \<longleftrightarrow> key \<in> keys_of s) \<and>
    NumSlots s' = NumSlots s"
proof (cases "NumSlots s = 0")
  case True
  from inv have "int (length (Data s)) = NumSlots s" by (simp add: set_inv_def table_shape_def)
  with True have "Data s = []" by simp
  with True run inv show ?thesis by (auto simp: Set_Remove_def keys_of_def)
next
  case False
  from inv have sh: "table_shape s" and pc: "probe_chain (home h s) (Data s)"
    by (auto simp: set_inv_def)
  from sh have dk: "distinct_keys (Data s)" by (simp add: table_shape_def)
  from shape_geom[OF sh False] obtain j where g: "geom s j" by blast
  then have j: "j \<le> 30" and len: "length (Data s) = 2 ^ j" and ns: "NumSlots s = 2 ^ j"
    by (auto simp: geom_def)
  let ?n = "2 ^ j :: nat"
  let ?a = "home h s key"
  have a: "?a = unat (h key) mod ?n" by (rule geom_home[OF g])
  have idx: "unat (h key AND mask j) = (?a + 0) mod ?n"
    by (simp add: unat_and_mask_mod a)
  from run False have run': "Set_Remove_loop fuel h s (mask j) (h key AND mask j) key = Some (Inr (b, s'))"
    by (simp add: Set_Remove_def geom_msk[OF g] Let_def)
  from Set_Remove_loop_pc[OF run' j len idx] obtain d where
    path: "\<forall>e<d. Data s ! ((?a + e) mod ?n) \<noteq> 0 \<and> Data s ! ((?a + e) mod ?n) \<noteq> key"
    and res: "(Data s ! ((?a + d) mod ?n) = 0 \<and> \<not> b \<and> s' = s) \<or>
       (Data s ! ((?a + d) mod ?n) \<noteq> 0 \<and> Data s ! ((?a + d) mod ?n) = key \<and> b \<and>
        (\<exists>f ix. unat ix = (?a + d) mod ?n \<and>
           Set_Remove_shift f h (s\<lparr>Data := (Data s)[(?a + d) mod ?n := 0],
              NumElems := NumElems s - 1\<rparr>) (mask j) ix = Some (Inr s')))"
    by auto
  let ?p = "(?a + d) mod ?n"
  have p: "?p < length (Data s)" using len by simp
  from res show ?thesis
  proof (elim disjE conjE exE)
    assume f: "Data s ! ?p = 0" "\<not> b" "s' = s"
    have "key \<notin> keys_of s"
    proof (cases "key = 0")
      case True
      then show ?thesis by (simp add: keys_of_def)
    next
      case False
      have "key \<notin> set (Data s)"
        by (rule probe_absent[OF pc False, of d]) (use path f(1) len in auto)
      then show ?thesis by (simp add: keys_of_def)
    qed
    with f inv show ?thesis by auto
  next
    fix f ix
    let ?s1 = "s\<lparr>Data := (Data s)[?p := 0], NumElems := NumElems s - 1\<rparr>"
    assume f: "Data s ! ?p \<noteq> 0" "Data s ! ?p = key" "b" "unat ix = ?p"
      "Set_Remove_shift f h ?s1 (mask j) ix = Some (Inr s')"
    have J: "shift_inv h ?s1 ?p 0" by (rule shift_inv_init[OF inv p f(1)])
    have g1: "geom ?s1 j" by (rule geom_same[OF g]) simp_all
    have ix: "unat ix = (?p + 0) mod 2 ^ j" using f(4) by simp
    from Set_Remove_shift_pc[OF f(5) J g1 ix]
    have r: "set_inv h s'" "keys_of s' = keys_of ?s1" "NumSlots s' = NumSlots s" by simp_all
    have "keys_of ?s1 = keys_of s - {key}"
      using keys_update_remove[OF p dk f(1)] f(2) by (simp add: keys_of_def)
    moreover have "key \<in> keys_of s" using f(1,2) p by (auto simp: keys_of_def) (metis nth_mem)
    ultimately show ?thesis using r f(3) by simp
  qed
qed

lemma Set_Remove_loop_total:
  assumes inv: "set_inv h s" and g: "geom s j" and z: "Data s ! z = 0"
    and "unat index < 2 ^ j" "(unat index + k) mod 2 ^ j = z" "k + 2 * 2 ^ j + 3 \<le> fuel"
  shows "\<exists>b s'. Set_Remove_loop fuel h s (mask j) index key = Some (Inr (b, s'))"
  using assms(4-)
proof (induction k arbitrary: index fuel)
  case 0
  from g have len: "length (Data s) = 2 ^ j" by (simp add: geom_def)
  from 0 have "unat index = z" by simp
  with z 0(1) len have e: "unat index < length (Data s)" "Data s ! unat index = 0" by simp_all
  from 0(3) obtain f where f: "fuel = Suc f" by (cases fuel) auto
  show ?case unfolding f remove_unfold_empty[OF e] by blast
next
  case (Suc k)
  from g have j: "j \<le> 30" and len: "length (Data s) = 2 ^ j" by (auto simp: geom_def)
  from Suc.prems(1) len have il: "unat index < length (Data s)" by simp
  from Suc.prems(3) obtain f where f: "fuel = Suc f" and ff: "k + 2 * 2 ^ j + 3 \<le> f"
    by (cases fuel) auto
  show ?case
  proof (cases "Data s ! unat index = 0")
    case True
    show ?thesis unfolding f remove_unfold_empty[OF il True] by blast
  next
    case nz: False
    show ?thesis
    proof (cases "key = Data s ! unat index")
      case True
      let ?s1 = "s\<lparr>Data := (Data s)[unat index := 0], NumElems := NumElems s - 1\<rparr>"
      note u = remove_unfold_found[OF il nz True inv_ok[OF inv nz il], of f h "mask j"]
      have J: "shift_inv h ?s1 (unat index) 0" by (rule shift_inv_init[OF inv il nz])
      have g1: "geom ?s1 j" by (rule geom_same[OF g]) simp_all
      have ix: "unat index = (unat index + 0) mod 2 ^ j" using Suc.prems(1) by simp
      from z nz have zp: "z \<noteq> unat index" by auto
      then have z1: "Data ?s1 ! z = 0" using z by simp
      have zl: "z < 2 ^ j" using Suc.prems(2) by (metis mod_less_divisor zero_less_numeral zero_less_power)
      have lt: "unat ((index + 1) AND mask j) < 2 ^ j" by (simp add: unat_and_mask_mod)
      from ahead_exists[OF lt zl] obtain k1 where k1: "k1 < 2 ^ j"
        "(unat ((index + 1) AND mask j) + k1) mod 2 ^ j = z" by blast
      from k1(1) ff have kf: "k1 + 2 ^ j + 2 \<le> f" by simp
      from Set_Remove_shift_total[OF J g1 ix z1 zp k1(2) kf] obtain s' where
        "Set_Remove_shift f h ?s1 (mask j) index = Some (Inr s')" by blast
      then show ?thesis unfolding f u by auto
    next
      case False
      note u = remove_unfold_next[OF il nz False, of f h "mask j"]
      from Suc.IH[OF ahead_step(2)[OF j Suc.prems(2)] ahead_step(1)[OF j Suc.prems(2)] ff]
      show ?thesis unfolding f u .
    qed
  qed
qed

lemma Set_Remove_total:
  assumes inv: "set_inv h s" and fuel: "3 * NumSlots s + 3 \<le> int fuel"
  shows "\<exists>b s'. Set_Remove fuel h s key = Some (Inr (b, s'))"
proof (cases "NumSlots s = 0")
  case True
  then show ?thesis by (auto simp: Set_Remove_def)
next
  case False
  from inv have sh: "table_shape s" by (auto simp: set_inv_def)
  from shape_geom[OF sh False] obtain j where g: "geom s j" by blast
  then have j: "j \<le> 30" and len: "length (Data s) = 2 ^ j" and ns: "NumSlots s = 2 ^ j"
    by (auto simp: geom_def)
  let ?n = "2 ^ j :: nat"
  have il: "unat (h key AND mask j) < ?n" by (simp add: unat_and_mask_mod)
  from inv_empty_slot[OF inv False] obtain z where z: "z < length (Data s)" "Data s ! z = 0"
    by blast
  from ahead_exists[OF il] z(1) len obtain k where k: "k < ?n" "(unat (h key AND mask j) + k) mod ?n = z"
    by auto
  from fuel ns have "3 * int ?n + 3 \<le> int fuel" by simp
  then have "3 * ?n + 3 \<le> fuel" by linarith
  with k(1) have kf: "k + 2 * 2 ^ j + 3 \<le> fuel" by simp
  from Set_Remove_loop_total[OF inv g z(2) il k(2) kf, of key]
  show ?thesis using False by (simp add: Set_Remove_def geom_msk[OF g] Let_def)
qed

section \<open>The operations of the map are those of the set on its keys\<close>

lemma map_result_simps [simp]:
  "map_result f None = None"
  "map_result f (Some (Inl e)) = Some (Inl e)"
  "map_result f (Some (Inr x)) = Some (Inr (f x))"
  by (simp_all add: map_result_def)

lemma keys_table_simps [simp]:
  "Data (keys_table m) = map Key (Data m)"
  "NumElems (keys_table m) = NumElems m"
  "NumSlots (keys_table m) = NumSlots m"
  "Allocator (keys_table m) = Allocator m"
  by (simp_all add: keys_table_def)

lemma keys_table_store [simp]: "keys_table (store_Value m i v) = keys_table m"
proof -
  have "map Key ((Data m)[i := (Data m ! i)\<lparr>Value := v\<rparr>]) = map Key (Data m)"
  proof (cases "i < length (Data m)")
    case True
    then show ?thesis by (simp add: map_update list_update_same_conv)
  next
    case False
    then show ?thesis by (simp add: list_update_beyond)
  qed
  then show ?thesis by (simp add: keys_table_def store_Value_def)
qed

lemma keys_table_put:
  "i < length (Data m) \<Longrightarrow>
   keys_table (m\<lparr>Data := (Data m)[i := (Data m ! i)\<lparr>Key := key\<rparr>], NumElems := e\<rparr>)
     = (keys_table m)\<lparr>Data := (Data (keys_table m))[i := key], NumElems := e\<rparr>"
  by (simp add: keys_table_def map_update)

lemma keys_table_clear:
  "keys_table (m\<lparr>Data := (Data m)[i := \<lparr>Key = 0, Value = v\<rparr>], NumElems := e\<rparr>)
     = (keys_table m)\<lparr>Data := (Data (keys_table m))[i := 0], NumElems := e\<rparr>"
  by (simp add: keys_table_def map_update)

lemma keys_table_fresh:
  "keys_table (m\<lparr>NumSlots := n, NumElems := 0, Data := replicate k \<lparr>Key = 0, Value = 0\<rparr>\<rparr>)
     = (keys_table m)\<lparr>NumSlots := n, NumElems := 0, Data := replicate k 0\<rparr>"
  by (simp add: keys_table_def)

lemma sim_FindPtr_loop:
  "Set_Has_loop fuel (keys_table m) msk index key
     = map_result (\<lambda>p. p \<noteq> None) (Map_FindPtr_loop fuel m msk index key)"
  by (induction fuel arbitrary: index) simp_all

lemma sim_Has:
  "Set_Has fuel h (keys_table m) key = Map_Has fuel h m key"
proof -
  have "Map_Has fuel h m key = map_result (\<lambda>p. p \<noteq> None) (Map_FindPtr fuel h m key)"
    by (simp add: Map_Has_def map_result_def split: option.splits sum.splits)
  then show ?thesis
    by (simp add: Set_Has_def Map_FindPtr_def sim_FindPtr_loop Let_def)
qed

lemma sim_Add_loop:
  "Set_Add_loop fuel (keys_table m) msk index key
     = map_result (\<lambda>(b, i, m'). (b, keys_table m')) (Map_Add_loop fuel m msk index key)"
  by (induction fuel arbitrary: index) (simp_all add: keys_table_put)

lemma neg_and_pred: "n < 0 \<Longrightarrow> n AND (n - 1) \<noteq> (0::int)"
proof -
  assume "n < 0"
  then have "n < 0 \<and> n - 1 < 0" by simp
  then have "n AND (n - 1) < 0" by (simp only: and_negative_int_iff)
  then show ?thesis by (metis less_irrefl)
qed

lemma sim_mutual:
  shows "Set_Add fuel h (keys_table m) key
      = map_result (\<lambda>(b, i, m'). (b, keys_table m')) (Map_Add fuel h m key)"
    and "n \<noteq> 0 \<Longrightarrow> Set_Resize fuel h (keys_table m) n
      = map_result keys_table (Map_Resize fuel h m n)"
    and "Set_Resize_loop fuel h (keys_table m) (map Key rest)
      = map_result keys_table (Map_Resize_loop fuel h m rest)"
proof (induction fuel h m key and fuel h m n and fuel h m rest
    rule: Map_Add_Map_Resize_Map_Resize_loop.induct)
  case (1 h m key)
  show ?case by simp
next
  case (2 fuel h m key)
  show ?case
  proof (cases "Allocator m \<and> key \<noteq> 0 \<and> int32_ok (100 * (NumElems m + 1)) \<and>
      int32_ok (70 * NumSlots m)")
    case False
    then show ?thesis by (auto simp del: Set_Resize.simps Map_Resize.simps)
  next
    case True
    let ?g = "70 * NumSlots m < 100 * (NumElems m + 1)"
    consider (a) "\<not> ?g" | (b) "?g" "NumSlots m = 0"
      | (c) "?g" "NumSlots m \<noteq> 0" "\<not> int32_ok (NumSlots m * 2)"
      | (d) "?g" "NumSlots m \<noteq> 0" "int32_ok (NumSlots m * 2)" by blast
    then show ?thesis
    proof cases
      case a
      with True show ?thesis
        by (simp add: sim_Add_loop Let_def del: Set_Resize.simps Map_Resize.simps)
    next
      case b
      from "2.IH"(1) True b have r: "Set_Resize fuel h (keys_table m) 8
          = map_result keys_table (Map_Resize fuel h m 8)" by simp
      show ?thesis
      proof (cases "Map_Resize fuel h m 8")
        case None
        with True b r show ?thesis by (simp del: Set_Resize.simps Map_Resize.simps)
      next
        case (Some x)
        then show ?thesis using True b r
          by (cases x) (simp_all add: sim_Add_loop Let_def del: Set_Resize.simps Map_Resize.simps)
      qed
    next
      case c
      with True show ?thesis by (simp del: Set_Resize.simps Map_Resize.simps)
    next
      case d
      from d(2) have "NumSlots m * 2 \<noteq> 0" by simp
      from "2.IH"(2)[OF _ _ _ d(1) d(2) _ this] True d(3)
      have r: "Set_Resize fuel h (keys_table m) (NumSlots m * 2)
          = map_result keys_table (Map_Resize fuel h m (NumSlots m * 2))" by simp
      show ?thesis
      proof (cases "Map_Resize fuel h m (NumSlots m * 2)")
        case None
        with True d r show ?thesis by (simp del: Set_Resize.simps Map_Resize.simps)
      next
        case (Some x)
        then show ?thesis using True d r
          by (cases x) (simp_all add: sim_Add_loop Let_def del: Set_Resize.simps Map_Resize.simps)
      qed
    qed
  qed
next
  case (3 fuel h m num_slots)
  let ?m1 = "m\<lparr>NumSlots := num_slots, NumElems := 0,
               Data := replicate (nat num_slots) \<lparr>Key = 0, Value = 0\<rparr>\<rparr>"
  show ?case
  proof (cases "int32_ok (num_slots - 1) \<and> num_slots AND (num_slots - 1) = 0 \<and>
      NumElems m \<le> num_slots")
    case False
    then show ?thesis by auto
  next
    case True
    with neg_and_pred[of num_slots] "3.prems" have pos: "0 < num_slots" by fastforce
    show ?thesis
    proof (cases "0 < NumSlots m")
      case c: True
      show ?thesis
      proof (cases "int (length (Data m)) < NumSlots m")
        case True
        with \<open>int32_ok (num_slots - 1) \<and> num_slots AND (num_slots - 1) = 0 \<and>
          NumElems m \<le> num_slots\<close> pos c show ?thesis by simp
      next
        case False
        from "3.IH"[OF _ _ _ refl refl refl c False] True
        have "Set_Resize_loop fuel h (keys_table ?m1) (map Key (take (nat (NumSlots m)) (Data m)))
          = map_result keys_table
              (Map_Resize_loop fuel h ?m1 (take (nat (NumSlots m)) (Data m)))"
          by simp
        with True pos c False show ?thesis
          by (simp add: keys_table_fresh take_map)
      qed
    next
      case False
      then have "nat (NumSlots m) = 0" "\<not> int (length (Data m)) < NumSlots m" by simp_all
      with True pos False show ?thesis
        by (simp add: keys_table_fresh)
    qed
  qed
next
  case (4 fuel h m)
  show ?case by simp
next
  case (5 fuel h m elem rest)
  show ?case
  proof (cases "Key elem = 0")
    case True
    with "5.IH"(3) show ?thesis by simp
  next
    case False
    note a = "5.IH"(1)[OF False]
    show ?thesis
    proof (cases "Map_Add fuel h m (Key elem)")
      case None
      with a False show ?thesis by simp
    next
      case (Some x)
      show ?thesis
      proof (cases x)
        case (Inl e)
        with Some a False show ?thesis by simp
      next
        case (Inr r)
        obtain b i m1 where r: "r = (b, i, m1)" by (cases r) auto
        from "5.IH"(2)[OF False Some Inr r[symmetric] refl]
        have "Set_Resize_loop fuel h (keys_table m1) (map Key rest)
          = map_result keys_table
              (Map_Resize_loop fuel h (store_Value m1 i (Value elem)) rest)"
          by simp
        with Some Inr r a False show ?thesis by simp
      qed
    qed
  qed
qed

lemma sim_Init:
  "Set_Init fuel h n = map_result keys_table (Map_Init fuel h n)"
proof -
  let ?m = "\<lparr>Data = [], NumElems = 0, NumSlots = 0, Allocator = True\<rparr> :: ('a, 'b) DS_Map"
  have k: "keys_table ?m = \<lparr>Data = [], NumElems = 0, NumSlots = 0, Allocator = True\<rparr>"
    by (simp add: keys_table_def)
  show ?thesis
  proof (cases "0 < n")
    case True
    then have "n \<noteq> 0" by simp
    from sim_mutual(2)[OF this, of fuel h ?m] True show ?thesis
      by (simp add: Set_Init_def Map_Init_def k del: Set_Resize.simps Map_Resize.simps)
  next
    case False
    then show ?thesis by (simp add: Set_Init_def Map_Init_def k)
  qed
qed

lemma Map_FindPtr_loop_Some:
  "Map_FindPtr_loop fuel m msk index key = Some (Inr (Some p)) \<Longrightarrow>
   p < length (Data m) \<and> Key (Data m ! p) = key \<and> key \<noteq> 0"
  by (induction fuel arbitrary: index) (auto split: if_splits)

lemma Map_FindPtr_Some:
  "Map_FindPtr fuel h m key = Some (Inr (Some p)) \<Longrightarrow>
   p < length (Data m) \<and> Key (Data m ! p) = key \<and> key \<noteq> 0"
  using Map_FindPtr_loop_Some[of fuel m _ _ key p]
  by (auto simp: Map_FindPtr_def Let_def split: if_splits)

lemma Map_Add_loop_slot:
  "Map_Add_loop fuel m msk index key = Some (Inr (b, i, m')) \<Longrightarrow>
   i < length (Data m') \<and> Key (Data m' ! i) = key"
  by (induction fuel arbitrary: index) (auto split: if_splits)

lemma Map_Add_slot:
  assumes "Map_Add fuel h m key = Some (Inr (b, i, m'))"
  shows "i < length (Data m') \<and> Key (Data m' ! i) = key"
proof -
  from assms obtain f where f: "fuel = Suc f" by (cases fuel) auto
  from assms obtain m1 where
    "Map_Add_loop f m1 ((word_of_int (NumSlots m1) :: u32) - 1)
        (h key AND ((word_of_int (NumSlots m1) :: u32) - 1)) key = Some (Inr (b, i, m'))"
    unfolding f
    by (auto simp: Let_def simp del: Map_Resize.simps split: if_splits option.splits sum.splits)
  then show ?thesis by (rule Map_Add_loop_slot)
qed

section \<open>Add and Resize return\<close>

lemma is_pow2_exp: "is_pow2 ((2::int) ^ k)"
proof -
  have "(2::int) ^ k AND (2 ^ k - 1) = take_bit k (2 ^ k)"
    by (simp only: take_bit_eq_mask mask_eq_exp_minus_1)
  also have "\<dots> = 0" by simp
  finally show ?thesis by (simp add: is_pow2_def)
qed

lemma pow2_double_le:
  assumes "is_pow2 c" "is_pow2 M" "c < M"
  shows "c * 2 \<le> M"
proof -
  from is_pow2D[OF assms(1)] obtain a :: nat where a: "c = 2 ^ a" by blast
  from is_pow2D[OF assms(2)] obtain b :: nat where b: "M = 2 ^ b" by blast
  from assms(3) a b have "(2::int) ^ a < 2 ^ b" by simp
  then have "a < b" by (simp add: power_strict_increasing_iff)
  then have "Suc a \<le> b" by simp
  then have "(2::int) ^ Suc a \<le> 2 ^ b" by (intro power_increasing) auto
  with a b show ?thesis by simp
qed

lemma is_pow2_double: "is_pow2 c \<Longrightarrow> is_pow2 (c * 2)"
proof -
  assume "is_pow2 c"
  from is_pow2D[OF this] obtain a :: nat where a: "c = 2 ^ a" by blast
  have "c * 2 = 2 ^ Suc a" using a by simp
  then show ?thesis by (simp only: is_pow2_exp)
qed

lemma is_pow2_8: "is_pow2 8"
  using is_pow2_exp[of 3] by simp

lemma Set_Add_loop_NumSlots:
  "Set_Add_loop fuel s msk index key = Some (Inr (b, s')) \<Longrightarrow> NumSlots s' = NumSlots s"
  by (induction fuel arbitrary: index) (auto split: if_splits)

lemma Set_Add_total_step:
  assumes inv: "set_inv h s" and key: "key \<noteq> 0"
    and M: "is_pow2 M" "NumSlots s = 0 \<longrightarrow> 8 \<le> M" "M \<le> 2 ^ 24"
    and c: "NumSlots s \<le> M" and ld: "100 * (NumElems s + 1) \<le> 70 * M"
    and fuel: "2 * M + 1 \<le> int (Suc fuel) + NumSlots s"
    and q8: "NumSlots s = 0 \<Longrightarrow> \<exists>s1. Set_Resize fuel h s 8 = Some (Inr s1) \<and> NumSlots s1 \<le> M"
    and q2: "NumSlots s \<noteq> 0 \<Longrightarrow> 70 * NumSlots s < 100 * (NumElems s + 1) \<Longrightarrow>
       \<exists>s1. Set_Resize fuel h s (NumSlots s * 2) = Some (Inr s1) \<and> NumSlots s1 \<le> M"
  shows "\<exists>b s'. Set_Add (Suc fuel) h s key = Some (Inr (b, s')) \<and> NumSlots s' \<le> M"
proof -
  from inv have sh: "table_shape s" and ld0: "100 * NumElems s \<le> 70 * NumSlots s"
    by (auto simp: set_inv_def)
  from sh have al: "Allocator s" and e0: "0 \<le> NumElems s" and n0: "0 \<le> NumSlots s"
    by (auto simp: table_shape_def)
  have ok: "int32_ok (100 * (NumElems s + 1))" "int32_ok (70 * NumSlots s)"
    "int32_ok (NumSlots s * 2)"
    using e0 n0 ld c M(3) by (auto simp: int32_ok_def)
  let ?grow = "70 * NumSlots s < 100 * (NumElems s + 1)"
  let ?n = "if NumSlots s = 0 then 8 else NumSlots s * 2"
  have "\<exists>s1. set_inv h s1 \<and> NumSlots s1 \<le> M \<and> NumSlots s1 \<noteq> 0 \<and> NumElems s1 = NumElems s \<and>
     Set_Add (Suc fuel) h s key = Set_Add_loop fuel s1 ((word_of_int (NumSlots s1) :: u32) - 1)
        (h key AND ((word_of_int (NumSlots s1) :: u32) - 1)) key"
  proof (cases ?grow)
    case False
    then have "NumSlots s \<noteq> 0" using e0 by auto
    with False inv c al key ok show ?thesis
      by (intro exI[of _ s]) (simp add: Let_def del: Set_Resize.simps)
  next
    case True
    from q8 q2 True obtain s1 where r: "Set_Resize fuel h s ?n = Some (Inr s1)"
      and m1: "NumSlots s1 \<le> M"
      by (cases "NumSlots s = 0") auto
    have "int32_ok ?n" using ok(3) by (simp add: int32_ok_def)
    from Set_pc(2)[OF sh this r] have post: "resize_post h s ?n s1" .
    then have i1: "set_inv h s1" and k1: "keys_of s1 = keys_of s" and n1: "?n \<le> NumSlots s1"
      by (auto simp: resize_post_def)
    from i1 have sh1: "table_shape s1" by (simp add: set_inv_def)
    have e1: "NumElems s1 = NumElems s" using shape_card[OF sh] shape_card[OF sh1] k1 by simp
    have nz: "NumSlots s1 \<noteq> 0" using n1 n0 by (auto split: if_splits)
    have "Set_Add (Suc fuel) h s key = Set_Add_loop fuel s1 ((word_of_int (NumSlots s1) :: u32) - 1)
        (h key AND ((word_of_int (NumSlots s1) :: u32) - 1)) key"
      using True al key ok r by (cases "NumSlots s = 0") (simp_all add: Let_def del: Set_Resize.simps)
    with i1 m1 nz e1 show ?thesis by blast
  qed
  then obtain s1 where i1: "set_inv h s1" and m1: "NumSlots s1 \<le> M" and nz: "NumSlots s1 \<noteq> 0"
    and e1: "NumElems s1 = NumElems s"
    and eq: "Set_Add (Suc fuel) h s key = Set_Add_loop fuel s1 ((word_of_int (NumSlots s1) :: u32) - 1)
        (h key AND ((word_of_int (NumSlots s1) :: u32) - 1)) key"
    by blast
  from i1 have sh1: "table_shape s1" by (simp add: set_inv_def)
  from shape_geom[OF sh1 nz] obtain j where g: "geom s1 j" by blast
  then have j: "j \<le> 30" and len: "length (Data s1) = 2 ^ j" and ns: "NumSlots s1 = 2 ^ j"
    by (auto simp: geom_def)
  let ?n = "2 ^ j :: nat"
  have il: "unat (h key AND mask j) < ?n" by (simp add: unat_and_mask_mod)
  from inv_empty_slot[OF i1 nz] obtain z where z: "z < length (Data s1)" "Data s1 ! z = 0"
    by blast
  from ahead_exists[OF il] z(1) len obtain k where k: "k < ?n" "(unat (h key AND mask j) + k) mod ?n = z"
    by auto
  from fuel c m1 have "NumSlots s1 \<le> int fuel" by simp
  with ns have "int ?n \<le> int fuel" by simp
  then have "?n \<le> fuel" by linarith
  with k(1) have kf: "k < fuel" by simp
  have ok1: "int32_ok (NumElems s1 + 1)" using e1 e0 ok(1) by (simp add: int32_ok_def)
  from Set_Add_loop_total[OF j len z(2) ok1 il k(2) kf, of key] obtain b s' where
    run: "Set_Add_loop fuel s1 (mask j) (h key AND mask j) key = Some (Inr (b, s'))" by blast
  from Set_Add_loop_NumSlots[OF run] m1 have "NumSlots s' \<le> M" by simp
  with run show ?thesis unfolding eq geom_msk[OF g] by blast
qed

lemma count_card:
  "table_shape s \<Longrightarrow> int (card (keys_of s)) = NumElems s"
  using shape_card[of s] by simp

lemma Set_Resize_total_step:
  assumes sh: "table_shape s" and n: "is_pow2 n" "NumElems s \<le> n" "n \<le> 2 ^ 30"
    and r: "\<And>s1. s1 = s\<lparr>NumSlots := n, NumElems := 0, Data := replicate (nat n) 0\<rparr> \<Longrightarrow>
        set_inv h s1 \<Longrightarrow> \<exists>s'. Set_Resize_loop fuel h s1 (Data s) = Some (Inr s') \<and> NumSlots s' \<le> M"
  shows "\<exists>s'. Set_Resize fuel h s n = Some (Inr s') \<and> NumSlots s' \<le> M"
proof -
  let ?s1 = "s\<lparr>NumSlots := n, NumElems := 0, Data := replicate (nat n) 0\<rparr>"
  from sh have al: "Allocator s" and len: "int (length (Data s)) = NumSlots s"
    by (auto simp: table_shape_def)
  from n(1) have pos: "0 < n" and bit: "n AND (n - 1) = 0" by (auto simp: is_pow2_def)
  have n32: "int32_ok n" "int32_ok (n - 1)" using pos n(3) by (auto simp: int32_ok_def)
  have inv1: "set_inv h ?s1"
    by (rule empty_table_inv[OF al _ _ n32(1)]) (use pos n(1) in auto)
  have tk: "take (nat (NumSlots s)) (Data s) = Data s" using len by simp
  have "Set_Resize fuel h s n = Set_Resize_loop fuel h ?s1 (Data s)"
    using n32 bit n(2) pos len by (simp add: Let_def tk)
  with r[OF refl inv1] show ?thesis by simp
qed

lemma card_keys_insert:
  assumes "table_shape s" "table_shape s1" "keys_of s1 = insert key (keys_of s)"
  shows "NumElems s1 \<le> NumElems s + 1"
proof -
  have "finite (keys_of s)" by (simp add: keys_of_def)
  then have "card (insert key (keys_of s)) \<le> card (keys_of s) + 1"
    by (simp add: card_insert_if)
  with shape_card[OF assms(1)] shape_card[OF assms(2)] assms(3) show ?thesis by simp
qed

lemma Set_Resize_loop_total_step:
  assumes inv: "set_inv h s"
    and a: "elem \<noteq> 0 \<Longrightarrow> \<exists>b s1. Set_Add fuel h s elem = Some (Inr (b, s1)) \<and> NumSlots s1 \<le> M"
    and r1: "\<And>b s1. elem \<noteq> 0 \<Longrightarrow> Set_Add fuel h s elem = Some (Inr (b, s1)) \<Longrightarrow>
        set_inv h s1 \<Longrightarrow> NumSlots s1 \<le> M \<Longrightarrow> NumElems s1 \<le> NumElems s + 1 \<Longrightarrow>
        NumSlots s \<le> NumSlots s1 \<Longrightarrow>
        \<exists>s'. Set_Resize_loop fuel h s1 rest = Some (Inr s') \<and> NumSlots s' \<le> M"
    and r0: "elem = 0 \<Longrightarrow> \<exists>s'. Set_Resize_loop fuel h s rest = Some (Inr s') \<and> NumSlots s' \<le> M"
  shows "\<exists>s'. Set_Resize_loop fuel h s (elem # rest) = Some (Inr s') \<and> NumSlots s' \<le> M"
proof (cases "elem = 0")
  case True
  with r0 show ?thesis by simp
next
  case False
  from a[OF False] obtain b s1 where add: "Set_Add fuel h s elem = Some (Inr (b, s1))"
    and m1: "NumSlots s1 \<le> M" by blast
  from Set_pc(1)[OF inv add] have ap: "add_post h s elem b s1" .
  then have i1: "set_inv h s1" and k1: "keys_of s1 = insert elem (keys_of s)"
    and n1: "NumSlots s \<le> NumSlots s1"
    by (auto simp: add_post_def)
  from inv i1 have "table_shape s" "table_shape s1" by (auto simp: set_inv_def)
  from card_keys_insert[OF this k1] have e1: "NumElems s1 \<le> NumElems s + 1" .
  from r1[OF False add i1 m1 e1 n1] add False show ?thesis by simp
qed

lemma Set_total:
  shows "set_inv h s \<Longrightarrow> key \<noteq> 0 \<Longrightarrow> is_pow2 M \<Longrightarrow> (NumSlots s = 0 \<longrightarrow> 8 \<le> M) \<Longrightarrow>
      M \<le> 2 ^ 24 \<Longrightarrow>
      NumSlots s \<le> M \<Longrightarrow> 100 * (NumElems s + 1) \<le> 70 * M \<Longrightarrow>
      2 * M + 1 \<le> int fuel + NumSlots s \<Longrightarrow>
      \<exists>b s'. Set_Add fuel h s key = Some (Inr (b, s')) \<and> NumSlots s' \<le> M"
    and "table_shape s \<Longrightarrow> is_pow2 n \<Longrightarrow> NumElems s \<le> n \<Longrightarrow> is_pow2 M \<Longrightarrow>
      M \<le> 2 ^ 24 \<Longrightarrow> n \<le> M \<Longrightarrow> 100 * NumElems s \<le> 70 * M \<Longrightarrow>
      2 * M + 1 \<le> int fuel + n \<Longrightarrow>
      \<exists>s'. Set_Resize fuel h s n = Some (Inr s') \<and> NumSlots s' \<le> M"
    and "set_inv h s \<Longrightarrow> is_pow2 M \<Longrightarrow> (NumSlots s = 0 \<longrightarrow> 8 \<le> M) \<Longrightarrow> M \<le> 2 ^ 24 \<Longrightarrow>
      NumSlots s \<le> M \<Longrightarrow>
      100 * (NumElems s + int (length (filter (\<lambda>k. k \<noteq> 0) rest))) \<le> 70 * M \<Longrightarrow>
      2 * M + 1 \<le> int fuel + NumSlots s \<Longrightarrow>
      \<exists>s'. Set_Resize_loop fuel h s rest = Some (Inr s') \<and> NumSlots s' \<le> M"
proof (induction fuel h s key and fuel h s n and fuel h s rest
    arbitrary: M and M and M
    rule: Set_Add_Set_Resize_Set_Resize_loop.induct)
  case (1 h s key)
  from 1(1) have "0 \<le> NumSlots s" by (simp add: set_inv_def table_shape_def)
  with 1 show ?case by simp
next
  case (2 fuel h s key)
  note inv = "2.prems"(1) and key = "2.prems"(2) and M = "2.prems"(3,4,5)
    and c = "2.prems"(6) and ld = "2.prems"(7) and fuel = "2.prems"(8)
  from inv have sh: "table_shape s" and ld0: "100 * NumElems s \<le> 70 * NumSlots s"
    by (auto simp: set_inv_def)
  from sh have al: "Allocator s" and e0: "0 \<le> NumElems s" and n0: "0 \<le> NumSlots s"
    by (auto simp: table_shape_def)
  have ok: "int32_ok (100 * (NumElems s + 1))" "int32_ok (70 * NumSlots s)"
    "int32_ok (NumSlots s * 2)"
    using e0 n0 ld c M(3) by (auto simp: int32_ok_def)
  show ?case
  proof (rule Set_Add_total_step[OF inv key M c ld fuel])
    assume z: "NumSlots s = 0"
    with ld0 e0 have e: "NumElems s = 0" by simp
    show "\<exists>s1. Set_Resize fuel h s 8 = Some (Inr s1) \<and> NumSlots s1 \<le> M"
      by (rule "2.IH"(1)) (use al key ok z e sh is_pow2_8 M fuel in simp_all)
  next
    assume nz: "NumSlots s \<noteq> 0" and g: "70 * NumSlots s < 100 * (NumElems s + 1)"
    from sh nz have p: "is_pow2 (NumSlots s)" by (auto simp: table_shape_def)
    from g ld have "NumSlots s < M" by simp
    from pow2_double_le[OF p M(1) this] have d: "NumSlots s * 2 \<le> M" .
    from nz n0 have "1 \<le> NumSlots s" by simp
    show "\<exists>s1. Set_Resize fuel h s (NumSlots s * 2) = Some (Inr s1) \<and> NumSlots s1 \<le> M"
      by (rule "2.IH"(2))
        (use al key ok nz g sh is_pow2_double[OF p] M d fuel ld ld0 \<open>1 \<le> NumSlots s\<close> in simp_all)
  qed
next
  case (3 fuel h s num_slots)
  note sh = "3.prems"(1) and n = "3.prems"(2,3) and M = "3.prems"(4,5)
    and nM = "3.prems"(6) and ld = "3.prems"(7) and fuel = "3.prems"(8)
  from n(1) have pos: "0 < num_slots" and bit: "num_slots AND (num_slots - 1) = 0"
    by (auto simp: is_pow2_def)
  from nM M(2) have n30: "num_slots \<le> 2 ^ 30" by simp
  have n32: "int32_ok (num_slots - 1)" using pos n30 by (auto simp: int32_ok_def)
  from sh have len: "int (length (Data s)) = NumSlots s"
    and cnt: "NumElems s = int (length (filter (\<lambda>k. k \<noteq> 0) (Data s)))"
    by (auto simp: table_shape_def)
  have tk: "take (nat (NumSlots s)) (Data s) = Data s" using len by simp
  show ?case
  proof (rule Set_Resize_total_step[OF sh n n30])
    fix s1 assume s1: "s1 = s\<lparr>NumSlots := num_slots, NumElems := 0,
        Data := replicate (nat num_slots) 0\<rparr>" and i1: "set_inv h s1"
    have "\<exists>s'. Set_Resize_loop fuel h s1 (take (nat (NumSlots s)) (Data s)) = Some (Inr s') \<and>
        NumSlots s' \<le> M"
      by (rule "3.IH"[OF _ _ _ refl refl s1 pos _ i1 M(1) _ M(2)])
        (use n32 bit n(2) len nM ld cnt fuel pos in \<open>simp_all add: tk s1\<close>)
    then show "\<exists>s'. Set_Resize_loop fuel h s1 (Data s) = Some (Inr s') \<and> NumSlots s' \<le> M"
      by (simp only: tk)
  qed
next
  case (4 fuel h s)
  then show ?case by simp
next
  case (5 fuel h s elem rest)
  note inv = "5.prems"(1) and M = "5.prems"(2,3,4) and c = "5.prems"(5)
    and ld = "5.prems"(6) and fuel = "5.prems"(7)
  show ?case
  proof (rule Set_Resize_loop_total_step[OF inv])
    assume nz: "elem \<noteq> 0"
    show "\<exists>b s1. Set_Add fuel h s elem = Some (Inr (b, s1)) \<and> NumSlots s1 \<le> M"
      by (rule "5.IH"(1)[OF nz inv nz M c _ fuel]) (use ld nz in simp)
  next
    fix b s1 assume nz: "elem \<noteq> 0" and add: "Set_Add fuel h s elem = Some (Inr (b, s1))"
      and i1: "set_inv h s1" and m1: "NumSlots s1 \<le> M" and e1: "NumElems s1 \<le> NumElems s + 1"
      and n1: "NumSlots s \<le> NumSlots s1"
    from inv have "0 \<le> NumSlots s" by (simp add: set_inv_def table_shape_def)
    with n1 M(2) have M2: "NumSlots s1 = 0 \<longrightarrow> 8 \<le> M" by auto
    show "\<exists>s'. Set_Resize_loop fuel h s1 rest = Some (Inr s') \<and> NumSlots s' \<le> M"
      by (rule "5.IH"(2)[OF nz add refl refl i1 M(1) M2 M(3) m1]) (use ld nz e1 n1 fuel in simp_all)
  next
    assume z: "elem = 0"
    show "\<exists>s'. Set_Resize_loop fuel h s rest = Some (Inr s') \<and> NumSlots s' \<le> M"
      by (rule "5.IH"(3)[OF _ inv M c _ fuel]) (use ld z in simp_all)
  qed
qed

section \<open>Sequences of operations\<close>

lemma map_result_Inr: "map_result f r = Some (Inr y) \<longleftrightarrow> (\<exists>x. r = Some (Inr x) \<and> y = f x)"
  by (auto simp: map_result_def split: option.splits sum.splits)

lemma int32_ok_sint: "int32_ok (sint (n :: u32))"
  using sint_ge[of n] sint_lt[of n] by (simp add: int32_ok_def)

lemma Set_step_inv:
  assumes inv: "set_inv h s" and run: "Set_step fuel h s op = Some (Inr s')"
  shows "set_inv h s' \<and> keys_of s' = keys_model (keys_of s) [op]"
proof (cases op)
  case (Op_Add key)
  with run obtain b where "Set_Add fuel h s key = Some (Inr (b, s'))"
    by (auto simp: map_result_Inr)
  from Set_pc(1)[OF inv this] Op_Add show ?thesis by (simp add: add_post_def)
next
  case (Op_Remove key)
  with run obtain b where "Set_Remove fuel h s key = Some (Inr (b, s'))"
    by (auto simp: map_result_Inr)
  from Set_Remove_correct[OF inv this] Op_Remove show ?thesis by simp
next
  case (Op_Resize n)
  with run have r: "Set_Resize fuel h s (sint n) = Some (Inr s')" by (simp del: Set_Resize.simps)
  from inv have "table_shape s" by (simp add: set_inv_def)
  from Set_pc(2)[OF this int32_ok_sint r] Op_Resize show ?thesis by (simp add: resize_post_def)
qed

lemma keys_model_append: "keys_model K (ops @ ops') = keys_model (keys_model K ops) ops'"
proof (induction ops arbitrary: K)
  case Nil
  show ?case by simp
next
  case (Cons op ops)
  then show ?case by (cases op) simp_all
qed

lemma Set_run_inv:
  assumes "set_inv h s" "Set_run fuel h s ops = Some (Inr s')"
  shows "set_inv h s' \<and> keys_of s' = keys_model (keys_of s) ops"
  using assms
proof (induction ops arbitrary: s)
  case Nil
  then show ?case by simp
next
  case (Cons op ops)
  from Cons.prems(2) obtain s1 where st: "Set_step fuel h s op = Some (Inr s1)"
    and rest: "Set_run fuel h s1 ops = Some (Inr s')"
    by (auto split: option.splits sum.splits)
  from Set_step_inv[OF Cons.prems(1) st] have i1: "set_inv h s1"
    and k1: "keys_of s1 = keys_model (keys_of s) [op]" by simp_all
  from Cons.IH[OF i1 rest] k1 keys_model_append[of "keys_of s" "[op]" ops] show ?case by simp
qed

lemma blank_inv: "set_inv h \<lparr>Data = [], NumElems = 0, NumSlots = 0, Allocator = True\<rparr>"
  by (simp add: set_inv_def table_shape_def probe_chain_def distinct_keys_def)

lemma Set_Init_inv:
  assumes "int32_ok n" "Set_Init fuel h n = Some (Inr s)"
  shows "set_inv h s \<and> keys_of s = {}"
proof (cases "0 < n")
  case True
  let ?b = "\<lparr>Data = [], NumElems = 0, NumSlots = 0, Allocator = True\<rparr> :: 'a DS_Set"
  from assms(2) True have r: "Set_Resize fuel h ?b n = Some (Inr s)"
    by (simp add: Set_Init_def del: Set_Resize.simps)
  have "table_shape ?b" using blank_inv[of h] by (simp add: set_inv_def)
  from Set_pc(2)[OF this assms(1) r] show ?thesis by (simp add: resize_post_def keys_of_def)
next
  case False
  with assms(2) have "s = \<lparr>Data = [], NumElems = 0, NumSlots = 0, Allocator = True\<rparr>"
    by (simp add: Set_Init_def)
  with blank_inv[of h] show ?thesis by (simp add: keys_of_def)
qed

text \<open>Resize on a table without keys, and Resize in general\<close>

lemma Set_Resize_loop_zeros:
  "set rest \<subseteq> {0} \<Longrightarrow> Set_Resize_loop fuel h s rest = Some (Inr s)"
  by (induction rest) auto

lemma no_keys_zeros:
  assumes "table_shape s" "NumElems s = 0"
  shows "set (Data s) \<subseteq> {0}"
proof -
  from assms have "filter (\<lambda>k. k \<noteq> 0) (Data s) = []" by (simp add: table_shape_def)
  then show ?thesis by (auto simp: filter_empty_conv)
qed

lemma slots_le_2_24:
  assumes "table_shape s" "70 * NumSlots s \<le> 2147483647"
  shows "NumSlots s \<le> 2 ^ 24"
proof (cases "NumSlots s = 0")
  case True
  then show ?thesis by simp
next
  case False
  from shape_geom[OF assms(1) False] obtain j where j: "NumSlots s = 2 ^ j" by (auto simp: geom_def)
  have "j \<le> 24"
  proof (rule ccontr)
    assume "\<not> j \<le> 24"
    then have "25 \<le> j" by simp
    then have "(2::int) ^ 25 \<le> 2 ^ j" by (intro power_increasing) auto
    with assms(2) j show False by simp
  qed
  then have "(2::int) ^ j \<le> 2 ^ 24" by (intro power_increasing) auto
  with j show ?thesis by simp
qed

lemma Set_Resize_total:
  assumes inv: "set_inv h s" and n: "n = 0 \<or> is_pow2 n" "NumElems s \<le> n" "n \<le> 2 ^ 30"
    and big: "NumElems s = 0 \<or> n \<le> 2 ^ 24"
    and fuel: "2 * max n (NumSlots s) + 1 \<le> int fuel"
  shows "\<exists>s'. Set_Resize fuel h s n = Some (Inr s')"
proof -
  from inv have sh: "table_shape s" and ld: "100 * NumElems s \<le> 70 * NumSlots s"
    by (auto simp: set_inv_def)
  from sh have e0: "0 \<le> NumElems s" and len: "int (length (Data s)) = NumSlots s"
    and n0: "0 \<le> NumSlots s"
    by (auto simp: table_shape_def)
  have tk: "take (nat (NumSlots s)) (Data s) = Data s" using len by simp
  show ?thesis
  proof (cases "NumElems s = 0")
    case True
    note z = no_keys_zeros[OF sh True]
    show ?thesis
    proof (cases "n = 0")
      case True
      with \<open>NumElems s = 0\<close> show ?thesis by (simp add: int32_ok_def)
    next
      case False
      with n(1) have p: "is_pow2 n" by simp
      then have pos: "0 < n" and bit: "n AND (n - 1) = 0" by (auto simp: is_pow2_def)
      have "int32_ok (n - 1)" using pos n(3) by (simp add: int32_ok_def)
      with bit pos n(2) len show ?thesis
        by (simp add: Let_def tk Set_Resize_loop_zeros[OF z])
    qed
  next
    case False
    with big have n24: "n \<le> 2 ^ 24" by simp
    from False e0 n(2) have "n \<noteq> 0" by auto
    with n(1) have p: "is_pow2 n" by simp
    from False sh have "70 * NumSlots s \<le> 2147483647" by (auto simp: table_shape_def)
    from slots_le_2_24[OF sh this] have c24: "NumSlots s \<le> 2 ^ 24" .
    from False e0 ld have cz: "NumSlots s \<noteq> 0" by auto
    with sh have pc: "is_pow2 (NumSlots s)" by (auto simp: table_shape_def)
    let ?M = "max n (NumSlots s)"
    have M: "is_pow2 ?M" "?M \<le> 2 ^ 24" "n \<le> ?M" "100 * NumElems s \<le> 70 * ?M"
      using p pc n24 c24 ld by (auto simp: max_def)
    have f: "2 * ?M + 1 \<le> int fuel + n" using fuel p by (simp add: is_pow2_def)
    from Set_total(2)[OF sh p n(2) M f] show ?thesis by blast
  qed
qed

lemma Map_Resize_loop_zeros:
  "\<forall>e\<in>set rest. Key e = 0 \<Longrightarrow> Map_Resize_loop fuel h m rest = Some (Inr m)"
  by (induction rest) auto

lemma sim_Resize_inv:
  assumes inv: "set_inv h (keys_table m)"
  shows "Set_Resize fuel h (keys_table m) n = map_result keys_table (Map_Resize fuel h m n)"
proof (cases "n = 0")
  case False
  then show ?thesis by (rule sim_mutual(2))
next
  case True
  from inv have sh: "table_shape (keys_table m)" by (simp add: set_inv_def)
  then have e0: "0 \<le> NumElems m" and len: "int (length (Data m)) = NumSlots m"
    by (auto simp: table_shape_def)
  show ?thesis
  proof (cases "NumElems m = 0")
    case False
    with e0 True show ?thesis by (simp add: int32_ok_def)
  next
    case z: True
    from no_keys_zeros[OF sh] z have "set (map Key (Data m)) \<subseteq> {0}" by simp
    then have "\<forall>e\<in>set (Data m). Key e = 0" by auto
    then have "\<forall>e\<in>set (take (nat (NumSlots m)) (Data m)). Key e = 0"
      by (meson in_set_takeD)
    from Map_Resize_loop_zeros[OF this] True z len show ?thesis
      by (simp add: int32_ok_def Let_def keys_table_fresh)
  qed
qed

lemma Map_step_sim:
  assumes inv: "set_inv h (keys_table m)"
  shows "Set_step fuel h (keys_table m) (key_op op) = map_result keys_table (Map_step fuel h m op)"
proof (cases op)
  case (Op_Set key v)
  show ?thesis
  proof (cases "Map_Add fuel h m key")
    case None
    with sim_mutual(1)[of fuel h m key] Op_Set show ?thesis by (simp add: Map_Set_def)
  next
    case (Some x)
    show ?thesis
    proof (cases x)
      case (Inl e)
      with Some sim_mutual(1)[of fuel h m key] Op_Set show ?thesis by (simp add: Map_Set_def)
    next
      case (Inr r)
      obtain b i m1 where "r = (b, i, m1)" by (cases r) auto
      with Inr Some sim_mutual(1)[of fuel h m key] Op_Set show ?thesis by (simp add: Map_Set_def)
    qed
  qed
next
  case (Op_Map_Resize n)
  with sim_Resize_inv[OF inv] show ?thesis by (simp del: Set_Resize.simps Map_Resize.simps)
qed

lemma Map_run_sim:
  assumes "set_inv h (keys_table m)"
  shows "Set_run fuel h (keys_table m) (map key_op ops) = map_result keys_table (Map_run fuel h m ops)"
  using assms
proof (induction ops arbitrary: m)
  case Nil
  show ?case by simp
next
  case (Cons op ops)
  note st = Map_step_sim[OF Cons.prems, of fuel op]
  show ?case
  proof (cases "Map_step fuel h m op")
    case None
    with st show ?thesis by simp
  next
    case (Some x)
    show ?thesis
    proof (cases x)
      case (Inl e)
      with Some st show ?thesis by simp
    next
      case (Inr m1)
      with Some st have s1: "Set_step fuel h (keys_table m) (key_op op) = Some (Inr (keys_table m1))"
        by simp
      from Set_step_inv[OF Cons.prems s1] have "set_inv h (keys_table m1)" by simp
      from Cons.IH[OF this] s1 Some Inr show ?thesis by simp
    qed
  qed
qed

lemma Map_reach:
  fixes m0 :: "('k::zero, 'v::zero) DS_Map"
  assumes "int32_ok n0" "Map_Init f0 h n0 = Some (Inr m0)" "Map_run fuel h m0 ops = Some (Inr m)"
  shows "set_inv h (keys_table m) \<and> keys_of (keys_table m) = keys_model {} (map key_op ops)"
proof -
  have "map_result keys_table (Map_Init f0 h n0 :: ('k, 'v) DS_Map result)
      = map_result keys_table (Some (Inr m0))"
    by (simp only: assms(2))
  then have "Set_Init f0 h n0 = Some (Inr (keys_table m0))"
    by (simp add: sim_Init[symmetric])
  from Set_Init_inv[OF assms(1) this] have i0: "set_inv h (keys_table m0)"
    and k0: "keys_of (keys_table m0) = {}" by simp_all
  from Map_run_sim[OF i0, of fuel ops] assms(3)
  have "Set_run fuel h (keys_table m0) (map key_op ops) = Some (Inr (keys_table m))" by simp
  from Set_run_inv[OF i0 this] k0 show ?thesis by simp
qed

lemma Set_reach:
  assumes "int32_ok n0" "Set_Init f0 h n0 = Some (Inr s0)" "Set_run fuel h s0 ops = Some (Inr s)"
  shows "set_inv h s \<and> keys_of s = keys_model {} ops"
proof -
  from Set_Init_inv[OF assms(1,2)] have i0: "set_inv h s0" and k0: "keys_of s0 = {}" by simp_all
  from Set_run_inv[OF i0 assms(3)] k0 show ?thesis by simp
qed

lemma Map_Has_FindPtr:
  "Map_Has fuel h m key = Some (Inr b) \<Longrightarrow>
   \<exists>p. Map_FindPtr fuel h m key = Some (Inr p) \<and> (b \<longleftrightarrow> p \<noteq> None)"
  by (auto simp: Map_Has_def split: option.splits sum.splits)

lemma Map_Has_correct:
  assumes "set_inv h (keys_table m)" "NumSlots m \<le> int fuel"
  shows "Map_Has fuel h m key = Some (Inr (key \<in> keys_of (keys_table m)))"
  using Set_Has_correct[OF assms(1), of fuel key] assms(2) by (simp add: sim_Has)

lemma Map_Find_absent:
  assumes "set_inv h (keys_table m)" "NumSlots m \<le> int fuel" "key \<notin> keys_of (keys_table m)"
  shows "Map_Find fuel h m key = Some (Inr None)"
proof -
  from Map_Has_correct[OF assms(1,2), of key] assms(3)
  have "Map_Has fuel h m key = Some (Inr False)" by simp
  from Map_Has_FindPtr[OF this] have "Map_FindPtr fuel h m key = Some (Inr None)" by simp
  then show ?thesis by (simp add: Map_Find_def)
qed

lemma Map_Find_present:
  assumes inv: "set_inv h (keys_table m)" and fuel: "NumSlots m \<le> int fuel"
    and i: "i < length (Data m)" "Key (Data m ! i) = key" "key \<noteq> 0"
  shows "Map_Find fuel h m key = Some (Inr (Some (Value (Data m ! i))))"
proof -
  from i have "key \<in> keys_of (keys_table m)"
    by (auto simp: keys_of_def)
  with Map_Has_correct[OF inv fuel, of key]
  have "Map_Has fuel h m key = Some (Inr True)" by simp
  from Map_Has_FindPtr[OF this] obtain p where p: "Map_FindPtr fuel h m key = Some (Inr (Some p))"
    by auto
  from Map_FindPtr_Some[OF p] have pl: "p < length (Data m)" "Key (Data m ! p) = key" by simp_all
  from inv have "distinct_keys (map Key (Data m))" by (simp add: set_inv_def table_shape_def)
  from distinct_keysD[OF this, of p i] pl i have "p = i" by simp
  with p show ?thesis by (simp add: Map_Find_def)
qed

lemma Map_Set_Find:
  assumes inv: "set_inv h (keys_table m)" and set: "Map_Set f h m key v = Some (Inr m1)"
    and fuel: "NumSlots m1 \<le> int fuel"
  shows "Map_Find fuel h m1 key = Some (Inr (Some v))"
proof -
  from set obtain b i m2 where add: "Map_Add f h m key = Some (Inr (b, i, m2))"
    and m1: "m1 = store_Value m2 i v"
    by (auto simp: Map_Set_def split: option.splits sum.splits)
  from Map_Add_slot[OF add] have i: "i < length (Data m2)" "Key (Data m2 ! i) = key" by simp_all
  from sim_mutual(1)[of f h m key] add
  have "Set_Add f h (keys_table m) key = Some (Inr (b, keys_table m2))" by simp
  from Set_pc(1)[OF inv this] have i2: "set_inv h (keys_table m2)" and kz: "key \<noteq> 0"
    by (simp_all add: add_post_def)
  have i1: "set_inv h (keys_table m1)" using i2 by (simp add: m1)
  have d1: "i < length (Data m1)" "Key (Data m1 ! i) = key" "Value (Data m1 ! i) = v"
    using i by (simp_all add: m1 store_Value_def)
  from Map_Find_present[OF i1 fuel d1(1,2) kz] d1(3) show ?thesis by simp
qed

lemma map_result_total: "map_result f r = Some (Inr y) \<Longrightarrow> \<exists>x. r = Some (Inr x)"
  by (auto simp: map_result_Inr)

lemma Map_Resize_total:
  assumes inv: "set_inv h (keys_table m)" and n: "n = 0 \<or> is_pow2 n" "NumElems m \<le> n" "n \<le> 2 ^ 30"
    and big: "NumElems m = 0 \<or> n \<le> 2 ^ 24"
    and fuel: "2 * max n (NumSlots m) + 1 \<le> int fuel"
  shows "\<exists>m'. Map_Resize fuel h m n = Some (Inr m')"
proof -
  from Set_Resize_total[OF inv, of n fuel] n big fuel obtain s' where
    "Set_Resize fuel h (keys_table m) n = Some (Inr s')" by auto
  then have "map_result keys_table (Map_Resize fuel h m n) = Some (Inr s')"
    by (simp only: sim_Resize_inv[OF inv, of fuel n])
  from map_result_total[OF this] show ?thesis .
qed

lemma Map_Find_total:
  assumes "set_inv h (keys_table m)" "NumSlots m \<le> int fuel"
  shows "\<exists>r. Map_Find fuel h m key = Some (Inr r)"
proof -
  from Map_Has_FindPtr[OF Map_Has_correct[OF assms, of key]] obtain p where
    "Map_FindPtr fuel h m key = Some (Inr p)" by blast
  then show ?thesis by (cases p) (simp_all add: Map_Find_def)
qed

lemma Set_Add_returns:
  assumes inv: "set_inv h s" and key: "key \<noteq> 0" and c: "NumSlots s \<le> 2 ^ 23"
    and fuel: "4 * NumSlots s + 17 \<le> int fuel"
  shows "\<exists>b s'. Set_Add fuel h s key = Some (Inr (b, s'))"
proof -
  from inv have sh: "table_shape s" and ld: "100 * NumElems s \<le> 70 * NumSlots s"
    by (auto simp: set_inv_def)
  from sh have e0: "0 \<le> NumElems s" and n0: "0 \<le> NumSlots s"
    and p: "NumSlots s = 0 \<or> is_pow2 (NumSlots s)"
    by (auto simp: table_shape_def)
  let ?M = "if NumSlots s = 0 then 8 else NumSlots s * 2"
  have M: "is_pow2 ?M" "NumSlots s = 0 \<longrightarrow> 8 \<le> ?M" "?M \<le> 2 ^ 24" "NumSlots s \<le> ?M"
    using p is_pow2_8 is_pow2_double[of "NumSlots s"] c n0 by auto
  have l: "100 * (NumElems s + 1) \<le> 70 * ?M"
  proof -
    consider "NumSlots s = 0" | "NumSlots s = 1" | "2 \<le> NumSlots s" using n0 by linarith
    then show ?thesis
    proof cases
      case 1
      with ld e0 show ?thesis by simp
    next
      case 2
      with ld have "NumElems s \<le> 0" by simp
      with 2 show ?thesis by simp
    next
      case 3
      with ld show ?thesis by simp
    qed
  qed
  have f: "2 * ?M + 1 \<le> int fuel + NumSlots s" using fuel n0 by auto
  from Set_total(1)[OF inv key M(1,2,3,4) l f] show ?thesis by blast
qed

lemma Map_Set_returns:
  assumes inv: "set_inv h (keys_table m)" and key: "key \<noteq> 0" and c: "NumSlots m \<le> 2 ^ 23"
    and fuel: "4 * NumSlots m + 17 \<le> int fuel"
  shows "\<exists>m'. Map_Set fuel h m key v = Some (Inr m')"
proof -
  from Set_Add_returns[OF inv key, of fuel] c fuel obtain b s' where
    "Set_Add fuel h (keys_table m) key = Some (Inr (b, s'))" by auto
  then have "map_result (\<lambda>(b, i, m'). (b, keys_table m')) (Map_Add fuel h m key) = Some (Inr (b, s'))"
    by (simp only: sim_mutual(1)[of fuel h m key])
  from map_result_total[OF this] obtain x where "Map_Add fuel h m key = Some (Inr x)" by blast
  then show ?thesis by (cases x) (simp add: Map_Set_def)
qed

text \<open>Resize to a size for which \<open>70 * NumSlots\<close> leaves the range of \<open>int\<close>.\<close>

lemma Set_Resize_loop_overflow:
  assumes "Allocator s" "\<not> int32_ok (70 * NumSlots s)" "\<exists>x\<in>set rest. x \<noteq> 0"
  shows "Set_Resize_loop (Suc f) h s rest = Some (Inl SignedOverflow)"
  using assms(3)
proof (induction rest)
  case Nil
  then show ?case by simp
next
  case (Cons elem rest)
  show ?case
  proof (cases "elem = 0")
    case True
    with Cons show ?thesis by simp
  next
    case False
    with assms(1,2) show ?thesis by (simp del: Set_Resize.simps)
  qed
qed

lemma Set_Resize_overflow:
  assumes "Allocator s" "int (length (Data s)) = NumSlots s" "\<exists>x\<in>set (Data s). x \<noteq> 0"
    and "0 < n" "n AND (n - 1) = 0" "int32_ok (n - 1)" "NumElems s \<le> n" "\<not> int32_ok (70 * n)"
  shows "Set_Resize (Suc f) h s n = Some (Inl SignedOverflow)"
proof -
  let ?s1 = "s\<lparr>NumSlots := n, NumElems := 0, Data := replicate (nat n) 0\<rparr>"
  have tk: "take (nat (NumSlots s)) (Data s) = Data s" using assms(2) by simp
  have "Set_Resize_loop (Suc f) h ?s1 (Data s) = Some (Inl SignedOverflow)"
    by (rule Set_Resize_loop_overflow) (use assms in simp_all)
  then show ?thesis using assms by (simp add: tk Let_def)
qed

section \<open>The example tables\<close>

lemma example_set_run:
  "Set_Init 40 (\<lambda>k. k) 8 = Some (Inr example_set0)"
  "Set_run 80 (\<lambda>k. k) example_set0 example_ops = Some (Inr example_set)"
  "Set_run 80 (\<lambda>k. k) example_set0 [Op_Add 5] = Some (Inr example_set5)"
  by code_simp+

lemma example_map_run:
  "Map_Init 40 (\<lambda>k. k) 8 = Some (Inr example_map0)"
  "Map_run 80 (\<lambda>k. k) example_map0 example_map_ops = Some (Inr example_map)"
  "Map_Set 80 (\<lambda>k. k) example_map 77 770 = Some (Inr example_map1)"
  by code_simp+

lemma example_int32: "int32_ok 8"
  by (simp add: int32_ok_def)

lemma example_sizes:
  "NumElems example_set = 5" "NumSlots example_set = 16"
  "NumElems example_map = 6" "NumSlots example_map = 32"
  "NumSlots example_map1 = 32"
  "NumSlots blank_set = 0" "NumSlots blank_map = 0"
  by code_simp+

lemma example_model:
  "keys_model {} example_ops = {13, 15, 21, 23, 31 :: u32}"
  "keys_model {} (map key_op example_map_ops) = {5, 7, 13, 15, 21, 23 :: u32}"
  by (auto simp: example_ops_def example_map_ops_def)

lemma pow2_int32: "is_pow2 n \<Longrightarrow> int32_ok n \<Longrightarrow> n \<le> 2 ^ 30"
proof -
  assume p: "is_pow2 n" and i: "int32_ok n"
  from is_pow2D[OF p] obtain k :: nat where k: "n = 2 ^ k" by blast
  with i have "(2::int) ^ k < 2 ^ 31" by (simp add: int32_ok_def)
  then have "k < 31" using power_less_imp_less_exp[of "2::int" k 31] by simp
  then have "(2::int) ^ k \<le> 2 ^ 30" by (intro power_increasing) auto
  with k show ?thesis by simp
qed

lemma resize_arg:
  "(n = 0 \<or> is_pow2 n) \<Longrightarrow> int32_ok n \<Longrightarrow> n \<le> 2 ^ 30"
  using pow2_int32[of n] by auto

section \<open>Insert and find\<close>

text \<open>
  C1, for the set and for the part of the map that can be instantiated. Take a set made
  by \<open>Init\<close> and changed by any sequence of \<open>Add\<close>, \<open>Remove\<close> and \<open>Resize\<close> calls that
  return. \<open>Has(key)\<close> returns whether the key is in \<open>keys_model {} ops\<close>, that is, whether
  the last call of the sequence on this key was an \<open>Add\<close>; the probe gets through when its
  fuel \<open>f\<close> is at least the number of slots. A further \<open>Remove\<close> returns, and so does a
  further \<open>Add\<close> of a key other than the default key on a table of at most \<open>2 ^ 23\<close>
  slots, given the fuel for their loops. On a map made by \<open>Init\<close> and any sequence of
  \<open>Set\<close> and \<open>Resize\<close> calls that return, \<open>Has\<close> and \<open>Find\<close> report a key exactly when it has
  been set, \<open>Find(key)\<close> just after \<open>Set(key, v)\<close> returns \<open>v\<close>, and \<open>Set\<close> returns under
  the conditions of \<open>Add\<close>. What the claim says of \<open>Remove\<close> on a map has no counterpart
  here: \<open>DS_Map::Remove\<close> cannot be instantiated.
\<close>

theorem insert_find_law:
  "(int32_ok n0 \<and> Set_Init f0 h n0 = Some (Inr s0) \<and> Set_run fuel h s0 ops = Some (Inr s) \<longrightarrow>
      (NumSlots s \<le> int f \<longrightarrow> Set_Has f h s key = Some (Inr (key \<in> keys_model {} ops))) \<and>
      (3 * NumSlots s + 3 \<le> int f \<longrightarrow> (\<exists>b s'. Set_Remove f h s key = Some (Inr (b, s')))) \<and>
      (key \<noteq> 0 \<and> NumSlots s \<le> 2 ^ 23 \<and> 4 * NumSlots s + 17 \<le> int f \<longrightarrow>
         (\<exists>b s'. Set_Add f h s key = Some (Inr (b, s'))))) \<and>
   (int32_ok n0 \<and> Map_Init f0 h n0 = Some (Inr m0) \<and> Map_run fuel h m0 mops = Some (Inr m) \<longrightarrow>
      (NumSlots m \<le> int f \<longrightarrow>
         Map_Has f h m key = Some (Inr (key \<in> keys_model {} (map key_op mops))) \<and>
         (\<exists>r. Map_Find f h m key = Some (Inr r) \<and>
              (r \<noteq> None \<longleftrightarrow> key \<in> keys_model {} (map key_op mops)))) \<and>
      (Map_Set f1 h m key v = Some (Inr m1) \<and> NumSlots m1 \<le> int f \<longrightarrow>
         Map_Find f h m1 key = Some (Inr (Some v))) \<and>
      (key \<noteq> 0 \<and> NumSlots m \<le> 2 ^ 23 \<and> 4 * NumSlots m + 17 \<le> int f \<longrightarrow>
         (\<exists>m'. Map_Set f h m key v = Some (Inr m'))))"
proof (intro conjI impI)
  assume "int32_ok n0 \<and> Set_Init f0 h n0 = Some (Inr s0) \<and> Set_run fuel h s0 ops = Some (Inr s)"
  then have r: "set_inv h s" "keys_of s = keys_model {} ops"
    using Set_reach[of n0 f0 h s0 fuel ops s] by blast+
  {
    assume "NumSlots s \<le> int f"
    from Set_Has_correct[OF r(1) this, of key] r(2)
    show "Set_Has f h s key = Some (Inr (key \<in> keys_model {} ops))" by simp
  }
  {
    assume "3 * NumSlots s + 3 \<le> int f"
    from Set_Remove_total[OF r(1) this]
    show "\<exists>b s'. Set_Remove f h s key = Some (Inr (b, s'))" .
  }
  {
    assume "key \<noteq> 0 \<and> NumSlots s \<le> 2 ^ 23 \<and> 4 * NumSlots s + 17 \<le> int f"
    then show "\<exists>b s'. Set_Add f h s key = Some (Inr (b, s'))"
      using Set_Add_returns[OF r(1), of key f] by blast
  }
next
  assume "int32_ok n0 \<and> Map_Init f0 h n0 = Some (Inr m0) \<and> Map_run fuel h m0 mops = Some (Inr m)"
  then have r: "set_inv h (keys_table m)" "keys_of (keys_table m) = keys_model {} (map key_op mops)"
    using Map_reach[of n0 f0 h m0 fuel mops m] by blast+
  {
    assume f: "NumSlots m \<le> int f"
    from Map_Has_correct[OF r(1) f, of key] r(2)
    show h: "Map_Has f h m key = Some (Inr (key \<in> keys_model {} (map key_op mops)))" by simp
    from Map_Has_FindPtr[OF h] obtain p where p: "Map_FindPtr f h m key = Some (Inr p)"
      "key \<in> keys_model {} (map key_op mops) \<longleftrightarrow> p \<noteq> None" by blast
    then show "\<exists>r. Map_Find f h m key = Some (Inr r) \<and>
        (r \<noteq> None \<longleftrightarrow> key \<in> keys_model {} (map key_op mops))"
      by (cases p) (simp_all add: Map_Find_def)
  }
  {
    assume "Map_Set f1 h m key v = Some (Inr m1) \<and> NumSlots m1 \<le> int f"
    then show "Map_Find f h m1 key = Some (Inr (Some v))"
      using Map_Set_Find[OF r(1), of f1 key v m1 f] by blast
  }
  {
    assume "key \<noteq> 0 \<and> NumSlots m \<le> 2 ^ 23 \<and> 4 * NumSlots m + 17 \<le> int f"
    then show "\<exists>m'. Map_Set f h m key v = Some (Inr m')"
      using Map_Set_returns[OF r(1), of key f v] by blast
  }
qed

theorem insert_find_law_witness:
  "Set_run 80 (\<lambda>k. k) example_set0 example_ops = Some (Inr example_set) \<and>
   Set_Has 200 (\<lambda>k. k) example_set 13 = Some (Inr True) \<and>
   Set_Has 200 (\<lambda>k. k) example_set 5 = Some (Inr False) \<and>
   (\<exists>b s'. Set_Remove 200 (\<lambda>k. k) example_set 13 = Some (Inr (b, s'))) \<and>
   (\<exists>b s'. Set_Add 200 (\<lambda>k. k) example_set 13 = Some (Inr (b, s'))) \<and>
   Map_run 80 (\<lambda>k. k) example_map0 example_map_ops = Some (Inr example_map) \<and>
   Map_Has 200 (\<lambda>k. k) example_map 13 = Some (Inr True) \<and>
   Map_Has 200 (\<lambda>k. k) example_map 77 = Some (Inr False) \<and>
   Map_Set 80 (\<lambda>k. k) example_map 77 770 = Some (Inr example_map1) \<and>
   Map_Find 200 (\<lambda>k. k) example_map1 77 = Some (Inr (Some 770)) \<and>
   (\<exists>m'. Map_Set 200 (\<lambda>k. k) example_map 77 770 = Some (Inr m'))"
  using insert_find_law[where ?n0.0 = 8 and ?f0.0 = 40 and h = "\<lambda>k. k" and ?s0.0 = example_set0
      and fuel = 80 and ops = example_ops and s = example_set and f = 200 and key = 13
      and ?m0.0 = example_map0 and mops = example_map_ops and m = example_map
      and ?f1.0 = 80 and v = 770 and ?m1.0 = example_map1]
    insert_find_law[where ?n0.0 = 8 and ?f0.0 = 40 and h = "\<lambda>k. k" and ?s0.0 = example_set0
      and fuel = 80 and ops = example_ops and s = example_set and f = 200 and key = 5
      and ?m0.0 = example_map0 and mops = example_map_ops and m = example_map
      and ?f1.0 = 80 and v = 770 and ?m1.0 = example_map1]
    insert_find_law[where ?n0.0 = 8 and ?f0.0 = 40 and h = "\<lambda>k. k" and ?s0.0 = example_set0
      and fuel = 80 and ops = example_ops and s = example_set and f = 200 and key = 77
      and ?m0.0 = example_map0 and mops = example_map_ops and m = example_map
      and ?f1.0 = 80 and v = 770 and ?m1.0 = example_map1]
    example_set_run(1,2) example_map_run example_int32 example_sizes example_model
  by simp

section \<open>The probe chains\<close>

text \<open>
  C2, for the set and for the part of the map that can be instantiated. In a set made
  by \<open>Init\<close> and changed by any sequence of \<open>Add\<close>, \<open>Remove\<close> and \<open>Resize\<close> calls that
  return, every occupied slot is reached from the initial slot of the key it holds,
  \<open>(uint32_t)key & mask\<close>, by scanning forward with wraparound, and no slot before it on
  the way is empty. The sequence may end with a \<open>Remove\<close>: the backward shift, which
  takes the keys of the run behind the freed slot out and puts them back through
  \<open>Add\<close>, leaves every probe chain whole. The same holds of the keys \<open>map Key (Data m)\<close>
  of a map made by \<open>Init\<close> and any sequence of \<open>Set\<close> and \<open>Resize\<close> calls that return;
  \<open>DS_Map::Remove\<close>, the repair the claim names for the map, cannot be instantiated.
\<close>

theorem probe_chain_invariant:
  "(int32_ok n0 \<and> Set_Init f0 h n0 = Some (Inr s0) \<and> Set_run fuel h s0 ops = Some (Inr s)
      \<longrightarrow> probe_chain (home h s) (Data s)) \<and>
   (int32_ok n0 \<and> Map_Init f0 h n0 = Some (Inr m0) \<and> Map_run fuel h m0 mops = Some (Inr m)
      \<longrightarrow> probe_chain (home h m) (map Key (Data m)))"
proof (intro conjI impI)
  assume "int32_ok n0 \<and> Set_Init f0 h n0 = Some (Inr s0) \<and> Set_run fuel h s0 ops = Some (Inr s)"
  then have "set_inv h s" using Set_reach[of n0 f0 h s0 fuel ops s] by blast
  then show "probe_chain (home h s) (Data s)" by (simp add: set_inv_def)
next
  assume "int32_ok n0 \<and> Map_Init f0 h n0 = Some (Inr m0) \<and> Map_run fuel h m0 mops = Some (Inr m)"
  then have "set_inv h (keys_table m)" using Map_reach[of n0 f0 h m0 fuel mops m] by blast
  moreover have "home h (keys_table m) = home h m" by (rule ext) (simp add: home_def)
  ultimately show "probe_chain (home h m) (map Key (Data m))" by (simp add: set_inv_def)
qed

theorem probe_chain_invariant_witness:
  "Set_run 80 (\<lambda>k. k) example_set0 example_ops = Some (Inr example_set) \<and>
   probe_chain (home (\<lambda>k. k) example_set) (Data example_set) \<and>
   Map_run 80 (\<lambda>k. k) example_map0 example_map_ops = Some (Inr example_map) \<and>
   probe_chain (home (\<lambda>k. k) example_map) (map Key (Data example_map))"
  using probe_chain_invariant[where ?n0.0 = 8 and ?f0.0 = 40 and h = "\<lambda>k. k"
      and ?s0.0 = example_set0 and fuel = 80 and ops = example_ops and s = example_set
      and ?m0.0 = example_map0 and mops = example_map_ops and m = example_map]
    example_set_run(1,2) example_map_run example_int32
  by simp

section \<open>The load factor\<close>

text \<open>
  C7, for the set and for the part of the map that can be instantiated. A set made by
  \<open>Init\<close> and changed by any sequence of \<open>Add\<close>, \<open>Remove\<close> and \<open>Resize\<close> calls that return
  has at most 0.7 times as many elements as slots, \<open>100 * NumElems \<le> 70 * NumSlots\<close>:
  every key that \<open>Resize\<close> or the backward shift of \<open>Remove\<close> moves goes through \<open>Add\<close>,
  so the bound holds after each of them too, and a table with no slots has no elements.
  The same holds of a map made by \<open>Init\<close> and any sequence of \<open>Set\<close> and \<open>Resize\<close> calls
  that return; the backward shift of \<open>DS_Map::Remove\<close> cannot be instantiated.
\<close>

theorem load_factor_bound:
  "(int32_ok n0 \<and> Set_Init f0 h n0 = Some (Inr s0) \<and> Set_run fuel h s0 ops = Some (Inr s)
      \<longrightarrow> 100 * NumElems s \<le> 70 * NumSlots s) \<and>
   (int32_ok n0 \<and> Map_Init f0 h n0 = Some (Inr m0) \<and> Map_run fuel h m0 mops = Some (Inr m)
      \<longrightarrow> 100 * NumElems m \<le> 70 * NumSlots m)"
proof (intro conjI impI)
  assume "int32_ok n0 \<and> Set_Init f0 h n0 = Some (Inr s0) \<and> Set_run fuel h s0 ops = Some (Inr s)"
  then have "set_inv h s" using Set_reach[of n0 f0 h s0 fuel ops s] by blast
  then show "100 * NumElems s \<le> 70 * NumSlots s" by (simp add: set_inv_def)
next
  assume "int32_ok n0 \<and> Map_Init f0 h n0 = Some (Inr m0) \<and> Map_run fuel h m0 mops = Some (Inr m)"
  then have "set_inv h (keys_table m)" using Map_reach[of n0 f0 h m0 fuel mops m] by blast
  then show "100 * NumElems m \<le> 70 * NumSlots m" by (simp add: set_inv_def)
qed

theorem load_factor_bound_witness:
  "Set_Init 40 (\<lambda>k. k) 8 = Some (Inr example_set0) \<and>
   Set_run 80 (\<lambda>k. k) example_set0 example_ops = Some (Inr example_set) \<and>
   100 * NumElems example_set \<le> 70 * NumSlots example_set \<and>
   Map_Init 40 (\<lambda>k. k) 8 = Some (Inr example_map0) \<and>
   Map_run 80 (\<lambda>k. k) example_map0 example_map_ops = Some (Inr example_map) \<and>
   100 * NumElems example_map \<le> 70 * NumSlots example_map"
  using load_factor_bound[where ?n0.0 = 8 and ?f0.0 = 40 and h = "\<lambda>k. k"
      and ?s0.0 = example_set0 and fuel = 80 and ops = example_ops and s = example_set
      and ?m0.0 = example_map0 and mops = example_map_ops and m = example_map]
    example_set_run(1,2) example_map_run example_int32
  by simp

section \<open>Failures\<close>

text \<open>
  C9, as the code has it. \<open>Add\<close> of the default key fails its assertion, in the set and
  in the map, whatever the table. On a table with no slots \<open>Has\<close> and \<open>Find\<close>, and
  \<open>Remove\<close> on a set, report that the key is absent, with any fuel. On a table made by
  \<open>Init\<close> and a sequence of calls that return, \<open>Has\<close>, \<open>Find\<close>, \<open>Remove\<close> on a set, and
  \<open>Resize\<close> return a value and no error once the fuel covers their loops: the number of
  slots for a probe, three times that and three for \<open>Remove\<close>, twice the larger of the
  two sizes and one for \<open>Resize\<close>. For \<open>Resize\<close> the argument is zero or a power of two
  and not below \<open>NumElems\<close> and, when the table holds keys, at most \<open>2 ^ 24\<close>.
\<close>

theorem table_failure_semantics:
  "Set_Add (Suc fuel) h s 0 = Some (Inl AssertFailed) \<and>
   Map_Add (Suc fuel) h m 0 = Some (Inl AssertFailed) \<and>
   (NumSlots s = 0 \<longrightarrow>
      Set_Has fuel h s key = Some (Inr False) \<and> Set_Remove fuel h s key = Some (Inr (False, s))) \<and>
   (NumSlots m = 0 \<longrightarrow>
      Map_Find fuel h m key = Some (Inr None) \<and> Map_Has fuel h m key = Some (Inr False)) \<and>
   (int32_ok n0 \<and> Set_Init f0 h n0 = Some (Inr s0) \<and> Set_run f1 h s0 ops = Some (Inr s1) \<longrightarrow>
      (NumSlots s1 \<le> int f \<longrightarrow> (\<exists>b. Set_Has f h s1 key = Some (Inr b))) \<and>
      (3 * NumSlots s1 + 3 \<le> int f \<longrightarrow> (\<exists>b s'. Set_Remove f h s1 key = Some (Inr (b, s')))) \<and>
      ((n = 0 \<or> is_pow2 n) \<and> NumElems s1 \<le> n \<and> int32_ok n \<and>
       (NumElems s1 = 0 \<or> n \<le> 2 ^ 24) \<and> 2 * max n (NumSlots s1) + 1 \<le> int f
         \<longrightarrow> (\<exists>s'. Set_Resize f h s1 n = Some (Inr s')))) \<and>
   (int32_ok n0 \<and> Map_Init f0 h n0 = Some (Inr m0) \<and> Map_run f1 h m0 mops = Some (Inr m1) \<longrightarrow>
      (NumSlots m1 \<le> int f \<longrightarrow>
         (\<exists>r. Map_Find f h m1 key = Some (Inr r)) \<and> (\<exists>b. Map_Has f h m1 key = Some (Inr b))) \<and>
      ((n = 0 \<or> is_pow2 n) \<and> NumElems m1 \<le> n \<and> int32_ok n \<and>
       (NumElems m1 = 0 \<or> n \<le> 2 ^ 24) \<and> 2 * max n (NumSlots m1) + 1 \<le> int f
         \<longrightarrow> (\<exists>m'. Map_Resize f h m1 n = Some (Inr m'))))"
proof (intro conjI impI)
  show "Set_Add (Suc fuel) h s 0 = Some (Inl AssertFailed)"
    by (simp del: Set_Resize.simps)
  show "Map_Add (Suc fuel) h m 0 = Some (Inl AssertFailed)"
    by (simp del: Map_Resize.simps)
next
  assume "NumSlots s = 0"
  then show "Set_Has fuel h s key = Some (Inr False)"
    and "Set_Remove fuel h s key = Some (Inr (False, s))"
    by (simp_all add: Set_Has_def Set_Remove_def)
next
  assume "NumSlots m = 0"
  then show "Map_Find fuel h m key = Some (Inr None)" and "Map_Has fuel h m key = Some (Inr False)"
    by (simp_all add: Map_Find_def Map_Has_def Map_FindPtr_def)
next
  assume "int32_ok n0 \<and> Set_Init f0 h n0 = Some (Inr s0) \<and> Set_run f1 h s0 ops = Some (Inr s1)"
  then have inv: "set_inv h s1" using Set_reach[of n0 f0 h s0 f1 ops s1] by blast
  {
    assume "NumSlots s1 \<le> int f"
    from Set_Has_correct[OF inv this] show "\<exists>b. Set_Has f h s1 key = Some (Inr b)" by blast
  }
  {
    assume "3 * NumSlots s1 + 3 \<le> int f"
    from Set_Remove_total[OF inv this]
    show "\<exists>b s'. Set_Remove f h s1 key = Some (Inr (b, s'))" .
  }
  {
    assume a: "(n = 0 \<or> is_pow2 n) \<and> NumElems s1 \<le> n \<and> int32_ok n \<and>
       (NumElems s1 = 0 \<or> n \<le> 2 ^ 24) \<and> 2 * max n (NumSlots s1) + 1 \<le> int f"
    then have "n \<le> 2 ^ 30" using resize_arg[of n] by blast
    with a Set_Resize_total[OF inv, of n f]
    show "\<exists>s'. Set_Resize f h s1 n = Some (Inr s')" by blast
  }
next
  assume "int32_ok n0 \<and> Map_Init f0 h n0 = Some (Inr m0) \<and> Map_run f1 h m0 mops = Some (Inr m1)"
  then have inv: "set_inv h (keys_table m1)" using Map_reach[of n0 f0 h m0 f1 mops m1] by blast
  {
    assume f: "NumSlots m1 \<le> int f"
    from Map_Find_total[OF inv f] show "\<exists>r. Map_Find f h m1 key = Some (Inr r)" .
    from Map_Has_correct[OF inv f] show "\<exists>b. Map_Has f h m1 key = Some (Inr b)" by blast
  }
  {
    assume a: "(n = 0 \<or> is_pow2 n) \<and> NumElems m1 \<le> n \<and> int32_ok n \<and>
       (NumElems m1 = 0 \<or> n \<le> 2 ^ 24) \<and> 2 * max n (NumSlots m1) + 1 \<le> int f"
    then have "n \<le> 2 ^ 30" using resize_arg[of n] by blast
    with a Map_Resize_total[OF inv, of n f]
    show "\<exists>m'. Map_Resize f h m1 n = Some (Inr m')" by blast
  }
qed

theorem table_failure_semantics_witness:
  "Set_Add 1 (\<lambda>k. k) blank_set 0 = Some (Inl AssertFailed) \<and>
   Map_Add 1 (\<lambda>k. k) blank_map 0 = Some (Inl AssertFailed) \<and>
   Set_Has 0 (\<lambda>k. k) blank_set 13 = Some (Inr False) \<and>
   Set_Remove 0 (\<lambda>k. k) blank_set 13 = Some (Inr (False, blank_set)) \<and>
   Map_Find 0 (\<lambda>k. k) blank_map 13 = Some (Inr None) \<and>
   Set_run 80 (\<lambda>k. k) example_set0 example_ops = Some (Inr example_set) \<and>
   (\<exists>b. Set_Has 200 (\<lambda>k. k) example_set 13 = Some (Inr b)) \<and>
   (\<exists>b s'. Set_Remove 200 (\<lambda>k. k) example_set 13 = Some (Inr (b, s'))) \<and>
   (\<exists>s'. Set_Resize 200 (\<lambda>k. k) example_set 64 = Some (Inr s')) \<and>
   Map_run 80 (\<lambda>k. k) example_map0 example_map_ops = Some (Inr example_map) \<and>
   (\<exists>r. Map_Find 200 (\<lambda>k. k) example_map 13 = Some (Inr r)) \<and>
   (\<exists>m'. Map_Resize 200 (\<lambda>k. k) example_map 64 = Some (Inr m'))"
proof -
  have p: "is_pow2 64" using is_pow2_exp[of 6] by simp
  have i: "int32_ok 64" by (simp add: int32_ok_def)
  show ?thesis
    using table_failure_semantics[where fuel = 0 and h = "\<lambda>k. k" and s = blank_set
        and m = blank_map and key = 13 and ?n0.0 = 8
        and ?f0.0 = 40 and ?s0.0 = example_set0 and ?f1.0 = 80 and ops = example_ops
        and ?s1.0 = example_set and f = 200 and n = 64
        and ?m0.0 = example_map0 and mops = example_map_ops and ?m1.0 = example_map]
      example_set_run(1,2) example_map_run example_int32 example_sizes p i
    by simp
qed

text \<open>
  C9 as stated fails for \<open>Resize\<close>. The set that holds the key 5 in 8 slots is what
  \<open>Init(8)\<close> and \<open>Add(5)\<close> make. \<open>2 ^ 25 = 33554432\<close> is a power of two and not below
  \<open>NumElems = 1\<close>, but \<open>Resize(33554432)\<close> puts the key back through \<open>Add\<close>, which computes
  \<open>70 * NumSlots = 2348810240\<close> in \<open>int\<close>: a signed overflow.
\<close>

theorem Set_Resize_power_of_two_overflow:
  "Set_Init 40 (\<lambda>k. k) 8 = Some (Inr example_set0) \<and>
   Set_run 80 (\<lambda>k. k) example_set0 [Op_Add 5] = Some (Inr example_set5) \<and>
   is_pow2 33554432 \<and> NumElems example_set5 \<le> 33554432 \<and> int32_ok 33554432 \<and>
   Set_Resize 100 (\<lambda>k. k) example_set5 33554432 = Some (Inl SignedOverflow)"
proof -
  have p: "is_pow2 33554432" using is_pow2_exp[of 25] by simp
  then have b: "(33554432::int) AND (33554432 - 1) = 0" by (simp add: is_pow2_def)
  have "Set_Resize (Suc 99) (\<lambda>k. k) example_set5 33554432 = Some (Inl SignedOverflow)"
    by (rule Set_Resize_overflow) (use b in \<open>simp_all add: example_set5_def int32_ok_def\<close>)
  then show ?thesis
    using example_set_run(1,3) p by (simp add: int32_ok_def example_set5_def)
qed

end
